theory Spec2Isabelle
  imports Main "HOL-Library.AList" "HOL-Library.Sublist"
begin

section \<open>The event dispatcher of server.go\<close>

text \<open>
  The Go program has one goroutine, \<^verbatim>\<open>run\<close>, that owns two maps (\<^verbatim>\<open>subs\<close> and
  \<^verbatim>\<open>repos\<close>) and serves five channels of the \<^verbatim>\<open>Server\<close> in a \<^verbatim>\<open>select\<close> loop; one goroutine
  per HTTP request (\<^verbatim>\<open>Handler\<close>), each owning a \<^verbatim>\<open>subscription\<close>; and one goroutine per
  started \<^verbatim>\<open>replay\<close>. The embedding is a state machine: the state holds the two maps of
  \<^verbatim>\<open>run\<close>, the Go channels \<^verbatim>\<open>out\<close> of the subscriptions, the subscriptions made by
  handlers and the replay goroutines; a step is one case of the \<^verbatim>\<open>select\<close>, one
  \<^verbatim>\<open>Handler\<close> connecting, or one iteration of one \<^verbatim>\<open>replay\<close> loop.

  All channels of the program are unbuffered, so a send completes only when a receiver
  takes the value. The only receiver of a subscription's \<^verbatim>\<open>out\<close> is the \<^verbatim>\<open>Handler\<close> that
  made it, in its \<^verbatim>\<open>select\<close> loop. While that \<^verbatim>\<open>Handler\<close> is in its loop a send is modelled at
  the moment the \<^verbatim>\<open>Handler\<close> takes the value: the value is appended to what it has received;
  how long the send waits is not modelled. Once the \<^verbatim>\<open>Handler\<close> has left its loop (its
  client is gone, or encoding failed) nothing receives from \<^verbatim>\<open>out\<close> any more, and a send on
  it blocks for ever. A send on a closed channel and a second \<^verbatim>\<open>close\<close> are run-time panics
  in Go; they are the faults of the model.
\<close>

subsection \<open>Data\<close>

type_synonym chan_id = nat

text \<open>
  \<^verbatim>\<open>type subscription struct { channel string; lastEventId string; out chan Event }\<close>.
  The program handles subscriptions by pointer; its fields are never assigned after the
  literal in \<^verbatim>\<open>Handler\<close>, which gives every subscription a channel \<^verbatim>\<open>out\<close> of its own, so
  the record value stands for the pointer.
\<close>

record subscription =
  channel :: string
  lastEventId :: string
  out :: chan_id

text \<open>
  Modelled from the spec: the interface \<^verbatim>\<open>Repository\<close> (its declaration is not in
  server.go). The spec gives it as
  \<^verbatim>\<open>replay(channel, lastSeenId) -> lazy ordered sequence of Event\<close>, finite and read-only;
  server.go calls it as \<^verbatim>\<open>repo.Replay(sub.channel, sub.lastEventId)\<close> and ranges over
  the result. The type of events, \<^verbatim>\<open>Event\<close>, is not declared in server.go either and is
  the type parameter \<open>'e\<close>.
\<close>

type_synonym 'e repository = "string \<Rightarrow> string \<Rightarrow> 'e list"

text \<open>
  A Go channel of events: whether it has been closed, the events its receiver has taken
  from it, oldest first, and whether its receiver has stopped receiving (the \<^verbatim>\<open>Handler\<close>
  has left its loop, at line 74 or 81 of server.go, and nothing will receive from the
  channel again).
\<close>

record 'e chan =
  is_closed :: bool
  received :: "'e list"
  deserted :: bool

text \<open>
  How far a goroutine gets with its sends: to the end, or to a send that blocks for ever;
  in both cases with the channels as it leaves them.
\<close>

datatype 'a progress = Done (store: 'a) | Blocked (store: 'a)

text \<open>The two run-time panics of Go that the program can reach.\<close>

datatype fault = SendOnClosedChannel | CloseOfClosedChannel

text \<open>
  What \<^verbatim>\<open>run\<close> receives: one constructor per channel of the \<^verbatim>\<open>Server\<close>, in the order of
  the \<^verbatim>\<open>select\<close> (\<^verbatim>\<open>registrations\<close>, \<^verbatim>\<open>unregister\<close>, \<^verbatim>\<open>pub\<close>, \<^verbatim>\<open>subs\<close>, \<^verbatim>\<open>quit\<close>), with the
  fields of \<^verbatim>\<open>registration\<close> and \<^verbatim>\<open>outbound\<close> as arguments.
\<close>

datatype 'e msg =
    Registration string "'e repository"
  | Unregister subscription
  | Outbound "string list" 'e
  | Subs subscription
  | Quit

text \<open>
  A goroutine started by \<^verbatim>\<open>go replay(repo, sub)\<close>: its two arguments and the number of
  events of \<^verbatim>\<open>repo.Replay(sub.channel, sub.lastEventId)\<close> it has sent so far.
\<close>

record 'e task =
  task_repo :: "'e repository"
  task_sub :: subscription
  task_pos :: nat

text \<open>
  \<open>subs\<close> and \<open>repos\<close> are the two local maps of \<^verbatim>\<open>run\<close>. \<open>subs\<close> is an association
  list because \<^verbatim>\<open>run\<close> ranges over it; the inner \<^verbatim>\<open>map[*subscription]struct{}\<close> is a list
  without repetition. Go ranges over a map in an unspecified order; the model ranges in
  list order. \<open>running\<close> holds while \<^verbatim>\<open>run\<close> is in its loop and takes messages; it is false
  once \<^verbatim>\<open>run\<close> has returned, and once \<^verbatim>\<open>run\<close> is blocked for ever in a send of the pub
  case, which \<open>blocked\<close> records. \<open>chans\<close> is the store of Go
  channels, \<open>next_chan\<close> the first one that \<^verbatim>\<open>make(chan Event)\<close> has not handed out yet.
  \<open>handlers\<close> lists the subscription of every \<^verbatim>\<open>Handler\<close> call so far, \<open>tasks\<close> the replay
  goroutines started so far.
\<close>

record 'e state =
  subs :: "(string \<times> subscription list) list"
  repos :: "string \<rightharpoonup> 'e repository"
  running :: bool
  blocked :: bool
  chans :: "chan_id \<Rightarrow> 'e chan"
  next_chan :: chan_id
  handlers :: "subscription list"
  tasks :: "'e task list"

subsection \<open>Go channels\<close>

text \<open>
  \<^verbatim>\<open>ch <- ev\<close>: a panic on a closed channel; blocked for ever on an open channel from which
  nothing receives any more; otherwise the receiver takes the value.
\<close>

definition send ::
  "(chan_id \<Rightarrow> 'e chan) \<Rightarrow> chan_id \<Rightarrow> 'e \<Rightarrow> fault + (chan_id \<Rightarrow> 'e chan) progress" where
  "send ch n ev =
     (if is_closed (ch n) then Inl SendOnClosedChannel
      else if deserted (ch n) then Inr (Blocked ch)
      else Inr (Done (ch(n := (ch n)\<lparr>received := received (ch n) @ [ev]\<rparr>))))"

text \<open>\<^verbatim>\<open>close(ch)\<close>: a panic on a channel that is closed already.\<close>

definition close_chan :: "(chan_id \<Rightarrow> 'e chan) \<Rightarrow> chan_id \<Rightarrow> fault + (chan_id \<Rightarrow> 'e chan)" where
  "close_chan ch n =
     (if is_closed (ch n) then Inl CloseOfClosedChannel
      else Inr (ch(n := (ch n)\<lparr>is_closed := True\<rparr>)))"

subsection \<open>The cases of \<^verbatim>\<open>run\<close>\<close>

text \<open>
  \<^verbatim>\<open>subs[c]\<close> read as a value: the nil map, which has no element, when \<open>c\<close> is not a key.
\<close>

definition subs_of :: "(string \<times> subscription list) list \<Rightarrow> string \<Rightarrow> subscription list" where
  "subs_of t c = (case map_of t c of None \<Rightarrow> [] | Some xs \<Rightarrow> xs)"

text \<open>
  \<^verbatim>\<open>for s := range subs[c] { s.out <- pub.event }\<close>: the loop does not get past a send
  that blocks.
\<close>

fun send_each ::
  "(chan_id \<Rightarrow> 'e chan) \<Rightarrow> subscription list \<Rightarrow> 'e \<Rightarrow> fault + (chan_id \<Rightarrow> 'e chan) progress" where
  "send_each ch [] ev = Inr (Done ch)"
| "send_each ch (s # ss) ev =
     (case send ch (out s) ev of
        Inl f \<Rightarrow> Inl f
      | Inr (Blocked ch') \<Rightarrow> Inr (Blocked ch')
      | Inr (Done ch') \<Rightarrow> send_each ch' ss ev)"

text \<open>\<^verbatim>\<open>for _, c := range pub.channels { ... }\<close>\<close>

fun publish_to ::
  "(string \<times> subscription list) list \<Rightarrow> (chan_id \<Rightarrow> 'e chan) \<Rightarrow> string list \<Rightarrow> 'e
     \<Rightarrow> fault + (chan_id \<Rightarrow> 'e chan) progress" where
  "publish_to t ch [] ev = Inr (Done ch)"
| "publish_to t ch (c # cs) ev =
     (case send_each ch (subs_of t c) ev of
        Inl f \<Rightarrow> Inl f
      | Inr (Blocked ch') \<Rightarrow> Inr (Blocked ch')
      | Inr (Done ch') \<Rightarrow> publish_to t ch' cs ev)"

text \<open>\<^verbatim>\<open>for s := range sub { close(s.out) }\<close>\<close>

fun close_each :: "(chan_id \<Rightarrow> 'e chan) \<Rightarrow> subscription list \<Rightarrow> fault + (chan_id \<Rightarrow> 'e chan)" where
  "close_each ch [] = Inr ch"
| "close_each ch (s # ss) =
     (case close_chan ch (out s) of Inl f \<Rightarrow> Inl f | Inr ch' \<Rightarrow> close_each ch' ss)"

text \<open>\<^verbatim>\<open>for _, sub := range subs { ... }\<close>\<close>

fun close_all ::
  "(chan_id \<Rightarrow> 'e chan) \<Rightarrow> (string \<times> subscription list) list \<Rightarrow> fault + (chan_id \<Rightarrow> 'e chan)" where
  "close_all ch [] = Inr ch"
| "close_all ch (kv # t) =
     (case close_each ch (snd kv) of Inl f \<Rightarrow> Inl f | Inr ch' \<Rightarrow> close_all ch' t)"

text \<open>
  \<^verbatim>\<open>delete(subs[sub.channel], sub)\<close>: \<^verbatim>\<open>delete\<close> on the nil map does nothing, and an inner
  map that becomes empty stays in \<^verbatim>\<open>subs\<close>.
\<close>

definition unregister_sub ::
  "(string \<times> subscription list) list \<Rightarrow> subscription \<Rightarrow> (string \<times> subscription list) list" where
  "unregister_sub t sub =
     (case map_of t (channel sub) of
        None \<Rightarrow> t
      | Some xs \<Rightarrow> AList.update (channel sub) (removeAll sub xs) t)"

text \<open>
  \<^verbatim>\<open>if _, ok := subs[sub.channel]; !ok { subs[sub.channel] = make(...) }\<close>, then
  \<^verbatim>\<open>subs[sub.channel][sub] = struct{}{}\<close>.
\<close>

definition register_sub ::
  "(string \<times> subscription list) list \<Rightarrow> subscription \<Rightarrow> (string \<times> subscription list) list" where
  "register_sub t sub =
     (let t1 = (case map_of t (channel sub) of
                  None \<Rightarrow> AList.update (channel sub) [] t
                | Some _ \<Rightarrow> t)
      in AList.update (channel sub) (List.insert sub (subs_of t1 (channel sub))) t1)"

text \<open>
  \<^verbatim>\<open>if len(sub.lastEventId) > 0 { repo, ok := repos[sub.channel]; if ok { go replay(repo, sub) } }\<close>
\<close>

definition start_replay :: "(string \<rightharpoonup> 'e repository) \<Rightarrow> subscription \<Rightarrow> 'e task list \<Rightarrow> 'e task list" where
  "start_replay rs sub ts =
     (if length (lastEventId sub) > 0 then
        (case rs (channel sub) of
           Some repo \<Rightarrow> ts @ [\<lparr>task_repo = repo, task_sub = sub, task_pos = 0\<rparr>]
         | None \<Rightarrow> ts)
      else ts)"

text \<open>
  One case of the \<^verbatim>\<open>select\<close> in \<^verbatim>\<open>run\<close>, in the order of the source. When a send of the
  pub case blocks for ever, \<^verbatim>\<open>run\<close> stays there: what it has sent so far has been received,
  and it takes no message again.
\<close>

fun run_case :: "'e state \<Rightarrow> 'e msg \<Rightarrow> fault + 'e state" where
  "run_case st (Registration c repo) = Inr (st\<lparr>repos := (repos st)(c \<mapsto> repo)\<rparr>)"
| "run_case st (Unregister sub) = Inr (st\<lparr>subs := unregister_sub (subs st) sub\<rparr>)"
| "run_case st (Outbound cs ev) =
     (case publish_to (subs st) (chans st) cs ev of
        Inl f \<Rightarrow> Inl f
      | Inr (Done ch) \<Rightarrow> Inr (st\<lparr>chans := ch\<rparr>)
      | Inr (Blocked ch) \<Rightarrow> Inr (st\<lparr>chans := ch, running := False, blocked := True\<rparr>))"
| "run_case st (Subs sub) =
     Inr (st\<lparr>subs := register_sub (subs st) sub,
             tasks := start_replay (repos st) sub (tasks st)\<rparr>)"
| "run_case st Quit =
     (case close_all (chans st) (subs st) of
        Inl f \<Rightarrow> Inl f
      | Inr ch \<Rightarrow> Inr (st\<lparr>chans := ch, running := False\<rparr>))"

text \<open>
  A message offered to \<^verbatim>\<open>run\<close>. The five channels of the \<^verbatim>\<open>Server\<close> are unbuffered and
  \<^verbatim>\<open>run\<close> is their only receiver: once \<^verbatim>\<open>run\<close> has returned or is blocked in a send, a
  message is never taken (its sender waits for ever) and has no effect.
\<close>

definition deliver :: "'e state \<Rightarrow> 'e msg \<Rightarrow> fault + 'e state" where
  "deliver st m = (if running st then run_case st m else Inr st)"

text \<open>The loop of \<^verbatim>\<open>run\<close> on the messages in the order in which it takes them.\<close>

fun run :: "'e state \<Rightarrow> 'e msg list \<Rightarrow> fault + 'e state" where
  "run st [] = Inr st"
| "run st (m # ms) = (case deliver st m of Inl f \<Rightarrow> Inl f | Inr st' \<Rightarrow> run st' ms)"

subsection \<open>The other goroutines\<close>

text \<open>The events a replay goroutine ranges over.\<close>

definition task_events :: "'e task \<Rightarrow> 'e list" where
  "task_events t = task_repo t (channel (task_sub t)) (lastEventId (task_sub t))"

text \<open>
  \<^verbatim>\<open>func replay(repo, sub) { for ev := range repo.Replay(...) { sub.out <- ev } }\<close>,
  run without any other goroutine in between.
\<close>

fun send_all ::
  "(chan_id \<Rightarrow> 'e chan) \<Rightarrow> chan_id \<Rightarrow> 'e list \<Rightarrow> fault + (chan_id \<Rightarrow> 'e chan) progress" where
  "send_all ch n [] = Inr (Done ch)"
| "send_all ch n (ev # evs) =
     (case send ch n ev of
        Inl f \<Rightarrow> Inl f
      | Inr (Blocked ch') \<Rightarrow> Inr (Blocked ch')
      | Inr (Done ch') \<Rightarrow> send_all ch' n evs)"

definition replay ::
  "'e repository \<Rightarrow> subscription \<Rightarrow> (chan_id \<Rightarrow> 'e chan) \<Rightarrow> fault + (chan_id \<Rightarrow> 'e chan) progress" where
  "replay repo sub ch = send_all ch (out sub) (repo (channel sub) (lastEventId sub))"

text \<open>
  One iteration of the loop of the \<open>k\<close>-th replay goroutine: it sends its next event; a
  goroutine whose range is exhausted has returned and does nothing. A goroutine whose
  send blocks stays at that send: nothing changes, and the same send is what it does
  next (it panics there if the channel has been closed in between, as Go wakes a blocked
  sender of a channel that is closed with a panic).
\<close>

definition replay_step :: "'e state \<Rightarrow> nat \<Rightarrow> fault + 'e state" where
  "replay_step st k =
     (if k < length (tasks st) then
        (let t = tasks st ! k in
         if task_pos t < length (task_events t) then
           (case send (chans st) (out (task_sub t)) (task_events t ! task_pos t) of
              Inl f \<Rightarrow> Inl f
            | Inr (Blocked ch) \<Rightarrow> Inr st
            | Inr (Done ch) \<Rightarrow>
                Inr (st\<lparr>chans := ch, tasks := (tasks st)[k := t\<lparr>task_pos := Suc (task_pos t)\<rparr>]\<rparr>))
         else Inr st)
      else Inr st)"

text \<open>
  \<^verbatim>\<open>NewServer\<close>: empty maps, \<^verbatim>\<open>run\<close> started. Every channel of the store is open,
  nothing has been received from it and no receiver has left it.
\<close>

definition new_server :: "'e state" where
  "new_server =
     \<lparr>subs = [], repos = Map.empty, running = True, blocked = False,
      chans = (\<lambda>_. \<lparr>is_closed = False, received = [], deserted = False\<rparr>),
      next_chan = 0, handlers = [], tasks = []\<rparr>"

text \<open>
  What the rest of the program does to the dispatcher: the exported \<^verbatim>\<open>Register\<close>,
  \<^verbatim>\<open>Publish\<close> and \<^verbatim>\<open>Close\<close>; a \<^verbatim>\<open>Handler\<close> that is called for a channel with a
  \<^verbatim>\<open>Last-Event-ID\<close> header, makes its subscription with a new \<^verbatim>\<open>out\<close>, of which it is the
  receiver, and sends it on \<^verbatim>\<open>srv.subs\<close>; a \<^verbatim>\<open>Handler\<close> that leaves its loop (\<open>Leave\<close>: its
  client is gone or encoding failed; from then on it offers its subscription on
  \<^verbatim>\<open>srv.unregister\<close> and receives nothing); \<^verbatim>\<open>run\<close> taking the subscription that a
  \<^verbatim>\<open>Handler\<close> which has left offers on \<^verbatim>\<open>srv.unregister\<close> (\<open>Disconnect\<close>, which makes the
  \<^verbatim>\<open>Handler\<close> leave if it has not left yet); and an iteration of a replay goroutine. Between
  \<open>Leave\<close> and \<open>Disconnect\<close> the subscription is still in the table of \<^verbatim>\<open>run\<close>. \<open>Leave\<close> and
  \<open>Disconnect\<close> take any subscription, also one that no handler made or that was
  unregistered before: the states the calls lead to are then at least those of the
  program.
\<close>

datatype 'e call =
    Register string "'e repository"
  | Publish "string list" 'e
  | Close
  | Connect string string
  | Leave subscription
  | Disconnect subscription
  | ReplayNext nat

definition leave :: "'e state \<Rightarrow> subscription \<Rightarrow> 'e state" where
  "leave st sub = st\<lparr>chans := (chans st)(out sub := (chans st (out sub))\<lparr>deserted := True\<rparr>)\<rparr>"

fun exec :: "'e state \<Rightarrow> 'e call \<Rightarrow> fault + 'e state" where
  "exec st (Register c repo) = deliver st (Registration c repo)"
| "exec st (Publish cs ev) = deliver st (Outbound cs ev)"
| "exec st Close = deliver st Quit"
| "exec st (Connect c l) =
     (let sub = \<lparr>channel = c, lastEventId = l, out = next_chan st\<rparr>
      in deliver (st\<lparr>chans := (chans st)(next_chan st :=
                                 (chans st (next_chan st))\<lparr>deserted := False\<rparr>),
                     next_chan := Suc (next_chan st), handlers := handlers st @ [sub]\<rparr>) (Subs sub))"
| "exec st (Leave sub) = Inr (leave st sub)"
| "exec st (Disconnect sub) = deliver (leave st sub) (Unregister sub)"
| "exec st (ReplayNext k) = replay_step st k"

fun execs :: "'e state \<Rightarrow> 'e call list \<Rightarrow> fault + 'e state" where
  "execs st [] = Inr st"
| "execs st (a # as) = (case exec st a of Inl f \<Rightarrow> Inl f | Inr st' \<Rightarrow> execs st' as)"

text \<open>
  The history source of the scenario in the spec: on channel news it has the events 6, 7
  and 8 after identifier 5. Events are identified with their identifier strings here.
\<close>

fun news_history :: "string repository" where
  "news_history c l = (if c = ''news'' \<and> l = ''5'' then [''6'', ''7'', ''8''] else [])"

text \<open>A second history source, which replays the single event 9 whatever it is asked.\<close>

fun late_history :: "string repository" where
  "late_history c l = [''9'']"

text \<open>
  The scenario of the spec as calls: a history source is registered for news, one client
  connects to news with last seen identifier 5 and one to sports without identifier.
  \<open>news_state\<close> is the state these calls lead to (lemma \<open>news_state_reached\<close>),
  \<open>news_state_closed\<close> the state after \<^verbatim>\<open>Close\<close> (lemma \<open>news_state_close\<close>).
\<close>

definition news_sub :: subscription where
  "news_sub = \<lparr>channel = ''news'', lastEventId = ''5'', out = 0\<rparr>"

definition sports_sub :: subscription where
  "sports_sub = \<lparr>channel = ''sports'', lastEventId = [], out = 1\<rparr>"

definition news_calls :: "string call list" where
  "news_calls = [Register ''news'' news_history, Connect ''news'' ''5'', Connect ''sports'' []]"

definition news_state :: "string state" where
  "news_state =
     \<lparr>subs = [(''news'', [news_sub]), (''sports'', [sports_sub])],
      repos = [''news'' \<mapsto> news_history], running = True, blocked = False,
      chans = (\<lambda>_. \<lparr>is_closed = False, received = [], deserted = False\<rparr>),
      next_chan = 2, handlers = [news_sub, sports_sub],
      tasks = [\<lparr>task_repo = news_history, task_sub = news_sub, task_pos = 0\<rparr>]\<rparr>"

definition news_state_closed :: "string state" where
  "news_state_closed =
     news_state\<lparr>chans := (\<lambda>n. \<lparr>is_closed = (n = 0 \<or> n = 1), received = [], deserted = False\<rparr>),
                running := False\<rparr>"

text \<open>
  A second scenario: two clients connect to news, the client of the second goes away and
  its \<^verbatim>\<open>Handler\<close> leaves its loop, but \<^verbatim>\<open>run\<close> has not taken its unregister yet
  (\<open>left_state\<close>, lemma \<open>left_state_reached\<close>); then an event is published to news
  (\<open>stalled_state\<close>).
\<close>

definition reader_a :: subscription where
  "reader_a = \<lparr>channel = ''news'', lastEventId = [], out = 0\<rparr>"

definition reader_b :: subscription where
  "reader_b = \<lparr>channel = ''news'', lastEventId = [], out = 1\<rparr>"

definition left_calls :: "string call list" where
  "left_calls = [Connect ''news'' [], Connect ''news'' [], Leave reader_b]"

definition left_state :: "string state" where
  "left_state =
     \<lparr>subs = [(''news'', [reader_b, reader_a])],
      repos = Map.empty, running = True, blocked = False,
      chans = (\<lambda>n. \<lparr>is_closed = False, received = [], deserted = (n = 1)\<rparr>),
      next_chan = 2, handlers = [reader_a, reader_b], tasks = []\<rparr>"

definition stalled_state :: "string state" where
  "stalled_state = left_state\<lparr>running := False, blocked := True\<rparr>"

subsection \<open>Predicates of the proofs\<close>

text \<open>No channel of the store has been closed.\<close>

definition all_open :: "(chan_id \<Rightarrow> 'e chan) \<Rightarrow> bool" where
  "all_open ch = (\<forall>n. \<not> is_closed (ch n))"

text \<open>Every channel \<open>n\<close> has received \<open>k n\<close> more copies of \<open>ev\<close>.\<close>

definition add_received :: "(chan_id \<Rightarrow> 'e chan) \<Rightarrow> (chan_id \<Rightarrow> nat) \<Rightarrow> 'e \<Rightarrow> chan_id \<Rightarrow> 'e chan" where
  "add_received ch k ev = (\<lambda>n. (ch n)\<lparr>received := received (ch n) @ replicate (k n) ev\<rparr>)"

text \<open>The subscriptions a publish to the channels \<open>cs\<close> sends to, in the order of its two loops.\<close>

definition targets :: "(string \<times> subscription list) list \<Rightarrow> string list \<Rightarrow> subscription list" where
  "targets t cs = concat (map (subs_of t) cs)"

text \<open>
  The key of every inner map is in \<open>subs\<close> once, an inner map holds a subscription once,
  and only under the subscription's own channel.
\<close>

definition table_ok :: "(string \<times> subscription list) list \<Rightarrow> bool" where
  "table_ok t = (distinct (map fst t) \<and> (\<forall>c. distinct (subs_of t c) \<and> (\<forall>s \<in> set (subs_of t c). channel s = c)))"

text \<open>
  What holds in every state the calls lead to from a new server: the table is well formed,
  it holds only subscriptions made by handlers, no two handlers share a channel
  \<open>out\<close>, every \<open>out\<close> has been handed out by \<^verbatim>\<open>make\<close>, and while \<^verbatim>\<open>run\<close> takes
  messages no channel is closed.
\<close>

definition sys_ok :: "'e state \<Rightarrow> bool" where
  "sys_ok st =
     (table_ok (subs st)
      \<and> (\<forall>c. set (subs_of (subs st) c) \<subseteq> set (handlers st))
      \<and> distinct (map out (handlers st))
      \<and> (\<forall>h \<in> set (handlers st). out h < next_chan st)
      \<and> (running st \<longrightarrow> all_open (chans st)))"

text \<open>
  From \<open>st\<close> to \<open>st'\<close> the \<open>k\<close>-th replay goroutine is the same goroutine, it has not gone
  back, and the channel of its subscription has received, after what it had received in
  \<open>st\<close>, events among which the ones the goroutine sent in between occur in their order.
\<close>

definition task_progress :: "'e state \<Rightarrow> 'e state \<Rightarrow> nat \<Rightarrow> bool" where
  "task_progress st st' k =
     (k < length (tasks st')
      \<and> task_repo (tasks st' ! k) = task_repo (tasks st ! k)
      \<and> task_sub (tasks st' ! k) = task_sub (tasks st ! k)
      \<and> task_pos (tasks st ! k) \<le> task_pos (tasks st' ! k)
      \<and> (\<exists>new. received (chans st' (out (task_sub (tasks st ! k))))
                  = received (chans st (out (task_sub (tasks st ! k)))) @ new
             \<and> subseq (take (task_pos (tasks st' ! k) - task_pos (tasks st ! k))
                         (drop (task_pos (tasks st ! k)) (task_events (tasks st ! k)))) new))"

text \<open>The \<^verbatim>\<open>Handler\<close> of the subscription is still receiving from its channel.\<close>

definition receiving :: "(chan_id \<Rightarrow> 'e chan) \<Rightarrow> subscription \<Rightarrow> bool" where
  "receiving ch s = (\<not> deserted (ch (out s)))"

text \<open>
  The subscriptions a publish to the channels \<open>cs\<close> gets to send to: those of \<open>targets\<close>
  before the first one whose \<^verbatim>\<open>Handler\<close> has left, at which \<^verbatim>\<open>run\<close> blocks.
\<close>

definition served :: "'e state \<Rightarrow> string list \<Rightarrow> subscription list" where
  "served st cs = takeWhile (receiving (chans st)) (targets (subs st) cs)"

text \<open>\<open>Done\<close> if \<open>b\<close> holds and \<open>Blocked\<close> otherwise.\<close>

definition finish :: "bool \<Rightarrow> 'a \<Rightarrow> 'a progress" where
  "finish b x = (if b then Done x else Blocked x)"

section \<open>Properties\<close>

subsection \<open>Sending while every channel is open\<close>

lemma all_open_add_received: "all_open ch \<Longrightarrow> all_open (add_received ch k ev)"
  by (simp add: all_open_def add_received_def)

lemma receiving_add_received: "receiving (add_received ch k ev) s = receiving ch s"
  by (simp add: receiving_def add_received_def)

lemma add_received_none: "add_received ch (\<lambda>n. 0) ev = ch"
  by (simp add: add_received_def)

lemma finish_True: "b \<Longrightarrow> finish b x = Done x"
  by (simp add: finish_def)

lemma finish_False: "\<not> b \<Longrightarrow> finish b x = Blocked x"
  by (simp add: finish_def)

lemma send_open:
  "all_open ch \<Longrightarrow>
     send ch n ev =
       Inr (if deserted (ch n) then Blocked ch
            else Done (add_received ch (\<lambda>m. if m = n then 1 else 0) ev))"
  by (auto simp: send_def all_open_def add_received_def fun_eq_iff)

lemma add_received_twice:
  "add_received (add_received ch k ev) k' ev = add_received ch (\<lambda>n. k n + k' n) ev"
  by (simp add: add_received_def fun_eq_iff replicate_add)

lemma send_each_open:
  "all_open ch \<Longrightarrow>
     send_each ch ss ev =
       Inr (finish (\<forall>s \<in> set ss. receiving ch s)
              (add_received ch (\<lambda>n. count_list (map out (takeWhile (receiving ch) ss)) n) ev))"
proof (induction ss arbitrary: ch)
  case Nil
  then show ?case by (simp add: add_received_none finish_def)
next
  case (Cons s ss)
  show ?case
  proof (cases "receiving ch s")
    case False
    then have "send_each ch (s # ss) ev = Inr (Blocked ch)"
      using Cons.prems by (simp add: send_open receiving_def)
    with False show ?thesis by (simp add: finish_def add_received_none)
  next
    case True
    let ?ch1 = "add_received ch (\<lambda>m. if m = out s then 1 else 0) ev"
    have r: "receiving ?ch1 = receiving ch"
      by (simp add: fun_eq_iff receiving_add_received)
    from True have "send_each ch (s # ss) ev = send_each ?ch1 ss ev"
      using Cons.prems by (simp add: send_open receiving_def)
    also have "\<dots> = Inr (finish (\<forall>s \<in> set ss. receiving ?ch1 s)
        (add_received ?ch1 (\<lambda>n. count_list (map out (takeWhile (receiving ?ch1) ss)) n) ev))"
      using Cons.prems by (intro Cons.IH all_open_add_received)
    also have "add_received ?ch1 (\<lambda>n. count_list (map out (takeWhile (receiving ?ch1) ss)) n) ev
        = add_received ch (\<lambda>n. count_list (map out (takeWhile (receiving ch) (s # ss))) n) ev"
      using True
      by (auto simp: r add_received_twice intro!: arg_cong [where f = "\<lambda>k. add_received ch k ev"])
    also have "(\<forall>s \<in> set ss. receiving ?ch1 s) = (\<forall>s' \<in> set (s # ss). receiving ch s')"
      using True by (simp add: r)
    finally show ?thesis .
  qed
qed

lemma publish_to_open:
  "all_open ch \<Longrightarrow>
     publish_to t ch cs ev =
       Inr (finish (\<forall>s \<in> set (targets t cs). receiving ch s)
              (add_received ch
                 (\<lambda>n. count_list (map out (takeWhile (receiving ch) (targets t cs))) n) ev))"
proof (induction cs arbitrary: ch)
  case Nil
  then show ?case by (simp add: add_received_none targets_def finish_def)
next
  case (Cons c cs)
  have tg: "targets t (c # cs) = subs_of t c @ targets t cs" by (simp add: targets_def)
  show ?case
  proof (cases "\<forall>s \<in> set (subs_of t c). receiving ch s")
    case False
    then obtain x where x: "x \<in> set (subs_of t c)" "\<not> receiving ch x" by blast
    have "send_each ch (subs_of t c) ev =
        Inr (Blocked (add_received ch
               (\<lambda>n. count_list (map out (takeWhile (receiving ch) (subs_of t c))) n) ev))"
      by (simp only: send_each_open [OF Cons.prems] finish_False [OF False])
    then have "publish_to t ch (c # cs) ev =
        Inr (Blocked (add_received ch
               (\<lambda>n. count_list (map out (takeWhile (receiving ch) (subs_of t c))) n) ev))"
      by simp
    moreover from x have "takeWhile (receiving ch) (targets t (c # cs))
        = takeWhile (receiving ch) (subs_of t c)"
      by (simp add: tg takeWhile_append1)
    moreover from x have "\<not> (\<forall>s \<in> set (targets t (c # cs)). receiving ch s)"
      by (auto simp: tg)
    ultimately show ?thesis by (simp add: finish_def)
  next
    case True
    let ?ch1 = "add_received ch (\<lambda>n. count_list (map out (subs_of t c)) n) ev"
    have r: "receiving ?ch1 = receiving ch"
      by (simp add: fun_eq_iff receiving_add_received)
    from True have tw: "takeWhile (receiving ch) (subs_of t c) = subs_of t c"
      by (simp add: takeWhile_eq_all_conv)
    from True have "publish_to t ch (c # cs) ev = publish_to t ?ch1 cs ev"
      using Cons.prems by (simp add: send_each_open finish_def tw)
    also have "\<dots> = Inr (finish (\<forall>s \<in> set (targets t cs). receiving ?ch1 s)
        (add_received ?ch1
           (\<lambda>n. count_list (map out (takeWhile (receiving ?ch1) (targets t cs))) n) ev))"
      using Cons.prems by (intro Cons.IH all_open_add_received)
    also have "add_received ?ch1
           (\<lambda>n. count_list (map out (takeWhile (receiving ?ch1) (targets t cs))) n) ev
        = add_received ch
           (\<lambda>n. count_list (map out (takeWhile (receiving ch) (targets t (c # cs)))) n) ev"
      using True
      by (auto simp: r tg takeWhile_append2 add_received_twice
          intro!: arg_cong [where f = "\<lambda>k. add_received ch k ev"])
    also have "(\<forall>s \<in> set (targets t cs). receiving ?ch1 s)
        = (\<forall>s \<in> set (targets t (c # cs)). receiving ch s)"
      using True by (auto simp: r tg)
    finally show ?thesis .
  qed
qed

subsection \<open>The routing table\<close>

lemma subs_of_register:
  "subs_of (register_sub t sub) c =
     (if c = channel sub then List.insert sub (subs_of t c) else subs_of t c)"
  by (auto simp: register_sub_def subs_of_def AList.update_conv' Let_def split: option.splits)

lemma subs_of_unregister:
  "subs_of (unregister_sub t sub) c =
     (if c = channel sub then removeAll sub (subs_of t c) else subs_of t c)"
  by (auto simp: unregister_sub_def subs_of_def AList.update_conv' split: option.splits)

lemma unregister_twice: "unregister_sub (unregister_sub t sub) sub = unregister_sub t sub"
  by (auto simp: unregister_sub_def AList.update_conv' split: option.splits)

lemma unregister_absent:
  "sub \<notin> set (subs_of t (channel sub)) \<Longrightarrow> unregister_sub t sub = t"
  by (auto simp: unregister_sub_def subs_of_def AList.update_triv split: option.splits)

lemma keys_register: "distinct (map fst t) \<Longrightarrow> distinct (map fst (register_sub t sub))"
  by (simp add: register_sub_def Let_def AList.distinct_update split: option.splits)

lemma keys_unregister: "distinct (map fst t) \<Longrightarrow> distinct (map fst (unregister_sub t sub))"
  by (simp add: unregister_sub_def AList.distinct_update split: option.splits)

lemma table_ok_Nil: "table_ok []"
  by (simp add: table_ok_def subs_of_def)

lemma table_ok_register: "table_ok t \<Longrightarrow> table_ok (register_sub t sub)"
  unfolding table_ok_def
  by (auto simp: subs_of_register keys_register)

lemma table_ok_unregister: "table_ok t \<Longrightarrow> table_ok (unregister_sub t sub)"
  unfolding table_ok_def
  by (auto simp: subs_of_unregister keys_unregister distinct_removeAll)

lemma run_case_table_ok:
  "table_ok (subs st) \<Longrightarrow> run_case st m = Inr st' \<Longrightarrow> table_ok (subs st')"
  by (cases m) (auto simp: table_ok_register table_ok_unregister split: sum.splits progress.splits)

lemma deliver_table_ok:
  "table_ok (subs st) \<Longrightarrow> deliver st m = Inr st' \<Longrightarrow> table_ok (subs st')"
  by (cases "running st") (auto simp: deliver_def intro: run_case_table_ok)

lemma run_Cons_Inr:
  "run st (m # ms) = Inr st' \<Longrightarrow> \<exists>st1. deliver st m = Inr st1 \<and> run st1 ms = Inr st'"
  by (cases "deliver st m") simp_all

lemma run_table_ok:
  "table_ok (subs st) \<Longrightarrow> run st ms = Inr st' \<Longrightarrow> table_ok (subs st')"
proof (induction ms arbitrary: st)
  case Nil
  then show ?case by simp
next
  case (Cons m ms)
  from run_Cons_Inr [OF Cons.prems(2)] obtain st1 where
    st1: "deliver st m = Inr st1" "run st1 ms = Inr st'" by blast
  from deliver_table_ok [OF Cons.prems(1) st1(1)] have "table_ok (subs st1)" .
  from Cons.IH [OF this st1(2)] show ?case .
qed

subsection \<open>Without a quit, \<^verbatim>\<open>run\<close> closes nothing and does not panic\<close>

lemma run_case_open:
  "all_open (chans st) \<Longrightarrow> m \<noteq> Quit \<Longrightarrow>
     \<exists>st'. run_case st m = Inr st' \<and> all_open (chans st')"
proof (cases m)
  case (Outbound cs ev)
  assume "all_open (chans st)"
  then show ?thesis
    by (simp add: Outbound publish_to_open all_open_add_received finish_def)
qed simp_all

lemma deliver_open:
  "all_open (chans st) \<Longrightarrow> m \<noteq> Quit \<Longrightarrow>
     \<exists>st'. deliver st m = Inr st' \<and> all_open (chans st')"
proof (cases "running st")
  case True
  assume "all_open (chans st)" "m \<noteq> Quit"
  from run_case_open [OF this] True show ?thesis by (simp add: deliver_def)
next
  case False
  assume "all_open (chans st)"
  with False show ?thesis by (simp add: deliver_def)
qed

lemma run_open:
  "all_open (chans st) \<Longrightarrow> Quit \<notin> set ms \<Longrightarrow>
     \<exists>st'. run st ms = Inr st' \<and> all_open (chans st')"
proof (induction ms arbitrary: st)
  case Nil
  then show ?case by simp
next
  case (Cons m ms)
  from Cons.prems have m: "m \<noteq> Quit" and ms: "Quit \<notin> set ms" by auto
  from deliver_open [OF Cons.prems(1) m] obtain st1 where
    st1: "deliver st m = Inr st1" "all_open (chans st1)" by blast
  from Cons.IH [OF st1(2) ms] obtain st' where
    st': "run st1 ms = Inr st'" "all_open (chans st')" by blast
  have "run st (m # ms) = Inr st'"
    by (simp add: st1(1) st'(1))
  with st'(2) show ?case by blast
qed

lemma new_server_open: "all_open (chans new_server)"
  by (simp add: new_server_def all_open_def)

subsection \<open>The claims about one case of \<^verbatim>\<open>run\<close>\<close>

text \<open>
  C4. A subscription received on \<^verbatim>\<open>srv.subs\<close> is added to the set of its channel, without
  fault, whatever \<open>repos\<close> holds. If its \<open>lastEventId\<close> is not empty and \<open>repos\<close> has a
  repository for its channel, exactly one replay goroutine is started, with that
  repository and that subscription, and it ranges over what the repository replays for the
  subscription's channel and \<open>lastEventId\<close>. If \<open>repos\<close> has no repository for the channel,
  no replay goroutine is started.
\<close>

theorem subscribe_starts_replay:
  "\<exists>st'. run_case st (Subs sub) = Inr st'
     \<and> sub \<in> set (subs_of (subs st') (channel sub))
     \<and> (\<forall>repo. lastEventId sub \<noteq> [] \<and> repos st (channel sub) = Some repo \<longrightarrow>
           tasks st' = tasks st @ [\<lparr>task_repo = repo, task_sub = sub, task_pos = 0\<rparr>]
           \<and> task_events (last (tasks st')) = repo (channel sub) (lastEventId sub))
     \<and> (repos st (channel sub) = None \<longrightarrow> tasks st' = tasks st)"
  by (simp add: start_replay_def subs_of_register task_events_def)

theorem subscribe_starts_replay_witness:
  "lastEventId \<lparr>channel = ''news'', lastEventId = ''5'', out = 0\<rparr> \<noteq> []
   \<and> repos (new_server\<lparr>repos := [''news'' \<mapsto> news_history]\<rparr>) ''news'' = Some news_history
   \<and> (\<exists>st'. run_case (new_server\<lparr>repos := [''news'' \<mapsto> news_history]\<rparr>)
               (Subs \<lparr>channel = ''news'', lastEventId = ''5'', out = 0\<rparr>) = Inr st'
          \<and> tasks st' = [\<lparr>task_repo = news_history,
                            task_sub = \<lparr>channel = ''news'', lastEventId = ''5'', out = 0\<rparr>,
                            task_pos = 0\<rparr>]
          \<and> task_events (last (tasks st')) = [''6'', ''7'', ''8''])
   \<and> repos (new_server :: string state) ''sports'' = None
   \<and> (\<exists>st'. run_case (new_server :: string state)
               (Subs \<lparr>channel = ''sports'', lastEventId = ''5'', out = 1\<rparr>) = Inr st'
          \<and> tasks st' = []
          \<and> \<lparr>channel = ''sports'', lastEventId = ''5'', out = 1\<rparr>
               \<in> set (subs_of (subs st') ''sports''))"
  using subscribe_starts_replay
    [of "new_server\<lparr>repos := [''news'' \<mapsto> news_history]\<rparr>"
        "\<lparr>channel = ''news'', lastEventId = ''5'', out = 0\<rparr>"]
    subscribe_starts_replay
    [of "new_server :: string state" "\<lparr>channel = ''sports'', lastEventId = ''5'', out = 1\<rparr>"]
  by (simp add: new_server_def start_replay_def register_sub_def subs_of_def task_events_def)

text \<open>
  C5. A subscription with an empty \<open>lastEventId\<close> starts no replay goroutine, whatever
  \<open>repos\<close> holds for its channel; it is added to the set of its channel.
\<close>

theorem subscribe_empty_id_no_replay:
  "lastEventId sub = [] \<Longrightarrow>
     (\<exists>st'. run_case st (Subs sub) = Inr st' \<and> tasks st' = tasks st
        \<and> sub \<in> set (subs_of (subs st') (channel sub)))"
  by (simp add: start_replay_def subs_of_register)

theorem subscribe_empty_id_no_replay_witness:
  "lastEventId \<lparr>channel = ''news'', lastEventId = [], out = 0\<rparr> = []
   \<and> repos (new_server\<lparr>repos := [''news'' \<mapsto> news_history]\<rparr>) ''news'' = Some news_history
   \<and> (\<exists>st'. run_case (new_server\<lparr>repos := [''news'' \<mapsto> news_history]\<rparr>)
               (Subs \<lparr>channel = ''news'', lastEventId = [], out = 0\<rparr>) = Inr st'
          \<and> tasks st' = [])"
  using subscribe_empty_id_no_replay
    [of "\<lparr>channel = ''news'', lastEventId = [], out = 0\<rparr>"
        "new_server\<lparr>repos := [''news'' \<mapsto> news_history]\<rparr>"]
  by (simp add: new_server_def)

text \<open>
  C6. The unregister case never faults. After it the subscription is not in the set of
  its channel, a second unregister of the same subscription changes nothing at all, and
  so does the unregister of a subscription that is not in the set of its channel (also
  when \<open>subs\<close> has no set for that channel).
\<close>

theorem unsubscribe_idempotent:
  "\<exists>st1. run_case st (Unregister sub) = Inr st1
     \<and> run_case st1 (Unregister sub) = Inr st1
     \<and> sub \<notin> set (subs_of (subs st1) (channel sub))
     \<and> (sub \<notin> set (subs_of (subs st) (channel sub)) \<longrightarrow> st1 = st)"
  by (simp add: unregister_twice unregister_absent subs_of_unregister)

theorem unsubscribe_idempotent_witness:
  "\<lparr>channel = ''alerts'', lastEventId = [], out = 7\<rparr>
      \<notin> set (subs_of (subs (new_server :: string state)) ''alerts'')
   \<and> map_of (subs (new_server :: string state)) ''alerts'' = None
   \<and> run_case (new_server :: string state)
        (Unregister \<lparr>channel = ''alerts'', lastEventId = [], out = 7\<rparr>) = Inr new_server"
  using unsubscribe_idempotent
    [of "new_server :: string state" "\<lparr>channel = ''alerts'', lastEventId = [], out = 7\<rparr>"]
  by (auto simp: new_server_def subs_of_def)

text \<open>
  C9. From a new server, \<^verbatim>\<open>run\<close> takes any sequence of registrations, subscriptions,
  unregistrations and publishes without fault, and in the state it reaches every channel
  has one subscriber set, a set holds a subscription at most once, and a subscription is
  only in the set of its own channel.
\<close>

theorem routing_table_invariant:
  "Quit \<notin> set ms \<Longrightarrow>
     \<exists>st. run (new_server :: 'e state) ms = Inr st
       \<and> distinct (map fst (subs st))
       \<and> (\<forall>c. distinct (subs_of (subs st) c))
       \<and> (\<forall>c s. s \<in> set (subs_of (subs st) c) \<longrightarrow> c = channel s)"
proof -
  assume "Quit \<notin> set ms"
  from run_open [OF new_server_open this] obtain st where
    st: "run (new_server :: 'e state) ms = Inr st" by blast
  have "table_ok (subs (new_server :: 'e state))"
    by (simp add: new_server_def table_ok_Nil)
  from run_table_ok [OF this st] have "table_ok (subs st)" .
  then have "distinct (map fst (subs st))" "\<forall>c. distinct (subs_of (subs st) c)"
    "\<forall>c s. s \<in> set (subs_of (subs st) c) \<longrightarrow> c = channel s"
    by (auto simp: table_ok_def)
  with st show ?thesis by blast
qed

theorem routing_table_invariant_witness:
  "Quit \<notin> set [Subs \<lparr>channel = ''news'', lastEventId = [], out = 0\<rparr>,
                 Subs \<lparr>channel = ''news'', lastEventId = [], out = 0\<rparr>,
                 Outbound [''news''] ''9'']
   \<and> (\<exists>st. run (new_server :: string state)
               [Subs \<lparr>channel = ''news'', lastEventId = [], out = 0\<rparr>,
                Subs \<lparr>channel = ''news'', lastEventId = [], out = 0\<rparr>,
                Outbound [''news''] ''9''] = Inr st
          \<and> subs st = [(''news'', [\<lparr>channel = ''news'', lastEventId = [], out = 0\<rparr>])]
          \<and> distinct (subs_of (subs st) ''news''))"
proof -
  let ?s = "\<lparr>channel = ''news'', lastEventId = [], out = 0\<rparr>"
  let ?ms = "[Subs ?s, Subs ?s, Outbound [''news''] ''9'']"
  have q: "Quit \<notin> set ?ms" by simp
  from routing_table_invariant [OF q] obtain st where
    st: "run (new_server :: string state) ?ms = Inr st"
    and d: "\<forall>c. distinct (subs_of (subs st) c)" by blast
  have "subs st = [(''news'', [?s])]"
    using st
    by (auto simp: new_server_def deliver_def register_sub_def subs_of_def start_replay_def send_def
        split: sum.splits)
  with q st d show ?thesis by blast
qed

subsection \<open>What closes a channel\<close>

lemma send_is_closed:
  "send ch n ev = Inr r \<Longrightarrow> is_closed (store r m) = is_closed (ch m)"
  by (auto simp: send_def split: if_splits)

lemma send_each_is_closed:
  "send_each ch ss ev = Inr r \<Longrightarrow> is_closed (store r m) = is_closed (ch m)"
proof (induction ss arbitrary: ch)
  case Nil
  then show ?case by auto
next
  case (Cons s ss)
  from Cons.prems obtain r1 where r1: "send ch (out s) ev = Inr r1"
    by (cases "send ch (out s) ev") simp_all
  show ?case
  proof (cases r1)
    case (Done ch1)
    with r1 Cons.prems have "send_each ch1 ss ev = Inr r" by simp
    from Cons.IH [OF this] send_is_closed [OF r1, of m] Done show ?thesis by simp
  next
    case (Blocked ch1)
    with r1 Cons.prems have "r = Blocked ch1" by simp
    with send_is_closed [OF r1, of m] Blocked show ?thesis by simp
  qed
qed

lemma publish_to_is_closed:
  "publish_to t ch cs ev = Inr r \<Longrightarrow> is_closed (store r m) = is_closed (ch m)"
proof (induction cs arbitrary: ch)
  case Nil
  then show ?case by auto
next
  case (Cons c cs)
  from Cons.prems obtain r1 where r1: "send_each ch (subs_of t c) ev = Inr r1"
    by (cases "send_each ch (subs_of t c) ev") simp_all
  show ?case
  proof (cases r1)
    case (Done ch1)
    with r1 Cons.prems have "publish_to t ch1 cs ev = Inr r" by simp
    from Cons.IH [OF this] send_each_is_closed [OF r1, of m] Done show ?thesis by simp
  next
    case (Blocked ch1)
    with r1 Cons.prems have "r = Blocked ch1" by simp
    with send_each_is_closed [OF r1, of m] Blocked show ?thesis by simp
  qed
qed

lemma run_case_publish:
  assumes "run_case st (Outbound cs ev) = Inr st'"
  shows "\<exists>r. publish_to (subs st) (chans st) cs ev = Inr r \<and> chans st' = store r
     \<and> subs st' = subs st \<and> repos st' = repos st \<and> tasks st' = tasks st
     \<and> handlers st' = handlers st \<and> next_chan st' = next_chan st
     \<and> (running st' \<longrightarrow> running st)"
proof -
  from assms obtain r where r: "publish_to (subs st) (chans st) cs ev = Inr r"
    by (cases "publish_to (subs st) (chans st) cs ev") simp_all
  with assms show ?thesis by (cases r) auto
qed

lemma run_case_is_closed:
  "m \<noteq> Quit \<Longrightarrow> run_case st m = Inr st' \<Longrightarrow> is_closed (chans st' n) = is_closed (chans st n)"
proof (cases m)
  case (Outbound cs ev)
  assume "run_case st m = Inr st'"
  with Outbound run_case_publish [of st cs ev st'] obtain r where
    "publish_to (subs st) (chans st) cs ev = Inr r" "chans st' = store r" by blast
  then show ?thesis by (simp add: publish_to_is_closed)
qed auto

lemma replay_step_is_closed:
  "replay_step st k = Inr st' \<Longrightarrow> is_closed (chans st' n) = is_closed (chans st n)"
  by (auto simp: replay_step_def Let_def send_def split: if_splits)

subsection \<open>The states the calls lead to\<close>

lemma sys_ok_new_server: "sys_ok new_server"
  by (simp add: sys_ok_def new_server_def table_ok_Nil subs_of_def all_open_def)

lemma sys_ok_frame:
  "sys_ok st \<Longrightarrow> subs st' = subs st \<Longrightarrow> handlers st' = handlers st \<Longrightarrow>
     next_chan st' = next_chan st \<Longrightarrow> (running st' \<longrightarrow> all_open (chans st')) \<Longrightarrow> sys_ok st'"
  by (simp add: sys_ok_def)

lemma sys_ok_publish:
  assumes "sys_ok st" "running st" "run_case st (Outbound cs ev) = Inr st'"
  shows "sys_ok st'"
proof -
  from assms(1,2) have op: "all_open (chans st)" by (simp add: sys_ok_def)
  from run_case_publish [OF assms(3)] obtain r where
    r: "publish_to (subs st) (chans st) cs ev = Inr r" "chans st' = store r"
    and f: "subs st' = subs st" "handlers st' = handlers st" "next_chan st' = next_chan st"
    by blast
  from op have "all_open (chans st')"
    using publish_to_is_closed [OF r(1)] by (simp add: all_open_def r(2))
  with f show ?thesis
    by (intro sys_ok_frame [OF assms(1)]) simp_all
qed

lemma sys_ok_leave:
  assumes "sys_ok st"
  shows "sys_ok (leave st sub)"
  by (rule sys_ok_frame [OF assms]) (insert assms, simp_all add: leave_def sys_ok_def all_open_def)

lemma close_each_fields:
  "close_each ch ss = Inr ch' \<Longrightarrow> received (ch' n) = received (ch n)"
proof (induction ss arbitrary: ch)
  case Nil
  then show ?case by simp
next
  case (Cons s ss)
  from Cons.prems obtain ch1 where
    ch1: "close_chan ch (out s) = Inr ch1" "close_each ch1 ss = Inr ch'"
    by (cases "close_chan ch (out s)") simp_all
  from ch1(1) have "received (ch1 n) = received (ch n)"
    by (auto simp: close_chan_def split: if_splits)
  with Cons.IH [OF ch1(2)] show ?case by simp
qed

lemma sys_ok_quit:
  assumes "sys_ok st" "run_case st Quit = Inr st'"
  shows "sys_ok st'"
proof -
  from assms(2) obtain ch where "st' = st\<lparr>chans := ch, running := False\<rparr>"
    by (cases "close_all (chans st) (subs st)") auto
  then show ?thesis
    by (intro sys_ok_frame [OF assms(1)]) simp_all
qed

lemma sys_ok_unregister:
  assumes "sys_ok st"
  shows "sys_ok (st\<lparr>subs := unregister_sub (subs st) sub\<rparr>)"
  using assms unfolding sys_ok_def
  by (auto simp: table_ok_unregister subs_of_unregister)

lemma sys_ok_connect:
  assumes "sys_ok st"
  shows "sys_ok (st\<lparr>chans := (chans st)(next_chan st :=
                              (chans st (next_chan st))\<lparr>deserted := False\<rparr>),
                   next_chan := Suc (next_chan st),
                   handlers := handlers st @ [\<lparr>channel = c, lastEventId = l, out = next_chan st\<rparr>]\<rparr>)"
  using assms unfolding sys_ok_def
  by (auto simp: less_Suc_eq all_open_def)

lemma sys_ok_subs:
  assumes "sys_ok st" "sub \<in> set (handlers st)"
  shows "sys_ok (st\<lparr>subs := register_sub (subs st) sub, tasks := ts\<rparr>)"
  using assms unfolding sys_ok_def
  by (auto simp: table_ok_register subs_of_register)

lemma sys_ok_replay_step:
  assumes "sys_ok st" "replay_step st k = Inr st'"
  shows "sys_ok st'"
proof (rule sys_ok_frame [OF assms(1)])
  from assms(2) show "subs st' = subs st" "handlers st' = handlers st" "next_chan st' = next_chan st"
    by (auto simp: replay_step_def Let_def split: if_splits sum.splits progress.splits)
  from assms(2) have r: "running st' = running st"
    by (auto simp: replay_step_def Let_def split: if_splits sum.splits progress.splits)
  show "running st' \<longrightarrow> all_open (chans st')"
  proof
    assume "running st'"
    with r assms(1) have "all_open (chans st)" by (simp add: sys_ok_def)
    then show "all_open (chans st')"
      using replay_step_is_closed [OF assms(2)] by (simp add: all_open_def)
  qed
qed

lemma sys_ok_deliver:
  assumes "sys_ok st" "deliver st m = Inr st'" "\<forall>sub. m = Subs sub \<longrightarrow> sub \<in> set (handlers st)"
  shows "sys_ok st'"
proof (cases "running st")
  case False
  with assms show ?thesis by (simp add: deliver_def)
next
  case True
  with assms(2) have rc: "run_case st m = Inr st'" by (simp add: deliver_def)
  show ?thesis
  proof (cases m)
    case (Registration c repo)
    with rc have "st' = st\<lparr>repos := (repos st)(c \<mapsto> repo)\<rparr>" by simp
    then show ?thesis using True assms(1)
      by (intro sys_ok_frame [OF assms(1)]) (simp_all add: sys_ok_def)
  next
    case (Unregister sub)
    with rc sys_ok_unregister [OF assms(1)] show ?thesis by auto
  next
    case (Outbound cs ev)
    with rc sys_ok_publish [OF assms(1) True] show ?thesis by simp
  next
    case (Subs sub)
    with assms(3) have "sub \<in> set (handlers st)" by simp
    from sys_ok_subs [OF assms(1) this] rc Subs show ?thesis by auto
  next
    case Quit
    with rc sys_ok_quit [OF assms(1)] show ?thesis by simp
  qed
qed

lemma sys_ok_exec:
  assumes "sys_ok st" "exec st a = Inr st'"
  shows "sys_ok st'"
proof (cases a)
  case (Connect c l)
  let ?sub = "\<lparr>channel = c, lastEventId = l, out = next_chan st\<rparr>"
  let ?st1 = "st\<lparr>chans := (chans st)(next_chan st :=
                              (chans st (next_chan st))\<lparr>deserted := False\<rparr>),
                  next_chan := Suc (next_chan st), handlers := handlers st @ [?sub]\<rparr>"
  from assms(2) Connect have d: "deliver ?st1 (Subs ?sub) = Inr st'" by (simp add: Let_def)
  show ?thesis
    by (rule sys_ok_deliver [OF sys_ok_connect [OF assms(1)] d]) simp
next
  case (ReplayNext k)
  with assms show ?thesis by (simp add: sys_ok_replay_step)
next
  case (Register c repo)
  with assms(2) have "deliver st (Registration c repo) = Inr st'" by simp
  from sys_ok_deliver [OF assms(1) this] show ?thesis by simp
next
  case (Publish cs ev)
  with assms(2) have "deliver st (Outbound cs ev) = Inr st'" by simp
  from sys_ok_deliver [OF assms(1) this] show ?thesis by simp
next
  case Close
  with assms(2) have "deliver st Quit = Inr st'" by simp
  from sys_ok_deliver [OF assms(1) this] show ?thesis by simp
next
  case (Disconnect sub)
  with assms(2) have "deliver (leave st sub) (Unregister sub) = Inr st'" by simp
  from sys_ok_deliver [OF sys_ok_leave [OF assms(1)] this] show ?thesis by simp
next
  case (Leave sub)
  with assms(2) have "st' = leave st sub" by simp
  with sys_ok_leave [OF assms(1)] show ?thesis by simp
qed

lemma execs_Cons_Inr:
  "execs st (a # as) = Inr st' \<Longrightarrow> \<exists>st1. exec st a = Inr st1 \<and> execs st1 as = Inr st'"
  by (cases "exec st a") simp_all

lemma sys_ok_execs:
  "sys_ok st \<Longrightarrow> execs st as = Inr st' \<Longrightarrow> sys_ok st'"
proof (induction as arbitrary: st)
  case Nil
  then show ?case by simp
next
  case (Cons a as)
  from execs_Cons_Inr [OF Cons.prems(2)] obtain st1 where
    st1: "exec st a = Inr st1" "execs st1 as = Inr st'" by blast
  from Cons.IH [OF sys_ok_exec [OF Cons.prems(1) st1(1)] st1(2)] show ?case .
qed

text \<open>The scenario.\<close>

lemma news_state_reached: "execs new_server news_calls = Inr news_state"
  by (simp add: news_calls_def news_state_def news_sub_def sports_sub_def new_server_def
      deliver_def register_sub_def subs_of_def start_replay_def Let_def numeral_2_eq_2
      fun_eq_iff)

lemma news_state_close: "exec news_state Close = Inr news_state_closed"
  by (auto simp: news_state_def news_state_closed_def news_sub_def sports_sub_def
      deliver_def close_chan_def fun_eq_iff)

subsection \<open>The quit case\<close>

lemma close_each_append:
  "close_each ch (xs @ ys) =
     (case close_each ch xs of Inl f \<Rightarrow> Inl f | Inr ch' \<Rightarrow> close_each ch' ys)"
  by (induction xs arbitrary: ch) (simp_all split: sum.splits)

lemma close_all_concat: "close_all ch t = close_each ch (concat (map snd t))"
  by (induction t arbitrary: ch) (simp_all add: close_each_append split: sum.splits)

lemma close_each_distinct:
  "distinct (map out ss) \<Longrightarrow> \<forall>s \<in> set ss. \<not> is_closed (ch (out s)) \<Longrightarrow>
     close_each ch ss = Inr (\<lambda>n. if n \<in> out ` set ss then (ch n)\<lparr>is_closed := True\<rparr> else ch n)"
proof (induction ss arbitrary: ch)
  case Nil
  then show ?case by simp
next
  case (Cons s ss)
  let ?ch1 = "ch(out s := (ch (out s))\<lparr>is_closed := True\<rparr>)"
  from Cons.prems have c1: "close_chan ch (out s) = Inr ?ch1"
    by (simp add: close_chan_def)
  from Cons.prems have d: "distinct (map out ss)" and o: "\<forall>s' \<in> set ss. \<not> is_closed (?ch1 (out s'))"
    by (auto simp: image_iff)
  have "close_each ch (s # ss) = close_each ?ch1 ss"
    by (simp add: c1)
  also have "\<dots> = Inr (\<lambda>n. if n \<in> out ` set ss then (?ch1 n)\<lparr>is_closed := True\<rparr> else ?ch1 n)"
    by (rule Cons.IH [OF d o])
  also have "(\<lambda>n. if n \<in> out ` set ss then (?ch1 n)\<lparr>is_closed := True\<rparr> else ?ch1 n)
      = (\<lambda>n. if n \<in> out ` set (s # ss) then (ch n)\<lparr>is_closed := True\<rparr> else ch n)"
    by (auto simp: fun_eq_iff)
  finally show ?case .
qed

lemma table_entry: "table_ok t \<Longrightarrow> (c, xs) \<in> set t \<Longrightarrow> subs_of t c = xs"
  by (simp add: table_ok_def subs_of_def)

lemma distinct_concat_entries:
  "distinct (map fst t) \<Longrightarrow>
     \<forall>(c, xs) \<in> set t. distinct xs \<and> (\<forall>s \<in> set xs. channel s = c) \<Longrightarrow>
     distinct (concat (map snd t))"
proof (induction t)
  case Nil
  then show ?case by simp
next
  case (Cons kv t)
  obtain c xs where kv: "kv = (c, xs)" by (cases kv)
  from Cons.prems kv have c: "c \<notin> fst ` set t" and xs: "distinct xs" "\<forall>s \<in> set xs. channel s = c"
    by auto
  from Cons.prems have rest: "distinct (concat (map snd t))"
    by (intro Cons.IH) auto
  have "set xs \<inter> set (concat (map snd t)) = {}"
  proof (rule ccontr)
    assume "set xs \<inter> set (concat (map snd t)) \<noteq> {}"
    then obtain s where s: "s \<in> set xs" "s \<in> set (concat (map snd t))" by blast
    from s(2) obtain c' xs' where e: "(c', xs') \<in> set t" "s \<in> set xs'" by auto
    with Cons.prems(2) have "channel s = c'" by auto
    moreover from s(1) xs(2) have "channel s = c" by simp
    ultimately have "c \<in> fst ` set t" using e(1) by force
    with c show False by simp
  qed
  with xs(1) rest kv show ?case by simp
qed

lemma table_ok_distinct_concat:
  assumes "table_ok t"
  shows "distinct (concat (map snd t))"
proof (rule distinct_concat_entries)
  from assms show "distinct (map fst t)" by (simp add: table_ok_def)
  show "\<forall>(c, xs) \<in> set t. distinct xs \<and> (\<forall>s \<in> set xs. channel s = c)"
  proof (clarify, intro conjI ballI)
    fix c xs assume e: "(c, xs) \<in> set t"
    from table_entry [OF assms e] assms show "distinct xs"
      by (auto simp: table_ok_def)
    fix s assume "s \<in> set xs"
    with table_entry [OF assms e] assms show "channel s = c"
      by (auto simp: table_ok_def)
  qed
qed

lemma set_concat_table:
  "distinct (map fst t) \<Longrightarrow> set (concat (map snd t)) = (\<Union>c. set (subs_of t c))"
proof (intro set_eqI iffI)
  fix s assume d: "distinct (map fst t)" and "s \<in> set (concat (map snd t))"
  then obtain c xs where e: "(c, xs) \<in> set t" "s \<in> set xs" by auto
  with d have "subs_of t c = xs" by (simp add: subs_of_def)
  with e(2) show "s \<in> (\<Union>c. set (subs_of t c))" by blast
next
  fix s assume "s \<in> (\<Union>c. set (subs_of t c))"
  then obtain c where c: "s \<in> set (subs_of t c)" by blast
  then obtain xs where "map_of t c = Some xs" "s \<in> set xs"
    by (cases "map_of t c") (auto simp: subs_of_def)
  then have "(c, xs) \<in> set t" "s \<in> set xs" by (auto dest: map_of_SomeD)
  then show "s \<in> set (concat (map snd t))" by force
qed

lemma sys_ok_inj: "sys_ok st \<Longrightarrow> inj_on out (set (handlers st))"
  by (simp add: sys_ok_def distinct_map)

lemma sys_ok_table_subset:
  assumes "sys_ok st"
  shows "set (concat (map snd (subs st))) \<subseteq> set (handlers st)"
proof -
  from assms have "distinct (map fst (subs st))" by (simp add: sys_ok_def table_ok_def)
  from set_concat_table [OF this] assms show ?thesis by (auto simp: sys_ok_def)
qed

lemma sys_ok_distinct_outs:
  assumes "sys_ok st"
  shows "distinct (map out (concat (map snd (subs st))))"
proof -
  from assms have "distinct (concat (map snd (subs st)))"
    by (simp add: sys_ok_def table_ok_distinct_concat)
  moreover have "inj_on out (set (concat (map snd (subs st))))"
    by (rule inj_on_subset [OF sys_ok_inj [OF assms] sys_ok_table_subset [OF assms]])
  ultimately show ?thesis by (simp add: distinct_map)
qed

lemma distinct_count_list: "distinct xs \<Longrightarrow> x \<in> set xs \<Longrightarrow> count_list xs x = 1"
  by (induction xs) auto

text \<open>
  C3. In a state that calls lead to from a new server and in which \<^verbatim>\<open>run\<close> takes
  messages, \<^verbatim>\<open>Close\<close> does not panic (no channel is closed a second time) and makes
  \<^verbatim>\<open>run\<close> return. The quit case calls \<^verbatim>\<open>close\<close> on the channels
  \<open>map out (concat (map snd subs))\<close> in turn (lemma \<open>close_all_concat\<close>); the channel of
  every subscription in the table was open, occurs exactly once among them, and is closed
  afterwards. Nothing else changes: no channel loses what was received from it and a
  channel of no subscription in the table is left as it was.
\<close>

theorem shutdown_closes_each_path_once:
  assumes "execs new_server calls = Inr st" "running st"
  shows "\<exists>st'. exec st Close = Inr st' \<and> \<not> running st' \<and> subs st' = subs st
     \<and> (\<forall>c. \<forall>s \<in> set (subs_of (subs st) c).
           \<not> is_closed (chans st (out s)) \<and> is_closed (chans st' (out s))
           \<and> count_list (map out (concat (map snd (subs st)))) (out s) = 1)
     \<and> (\<forall>n. received (chans st' n) = received (chans st n))
     \<and> (\<forall>n. n \<notin> out ` set (concat (map snd (subs st))) \<longrightarrow> chans st' n = chans st n)"
proof -
  let ?L = "concat (map snd (subs st))"
  let ?ch = "\<lambda>n. if n \<in> out ` set ?L then (chans st n)\<lparr>is_closed := True\<rparr> else chans st n"
  from sys_ok_execs [OF sys_ok_new_server assms(1)] have ok: "sys_ok st" .
  with assms(2) have op: "all_open (chans st)" by (simp add: sys_ok_def)
  have d: "distinct (map out ?L)" by (rule sys_ok_distinct_outs [OF ok])
  from op have "\<forall>s \<in> set ?L. \<not> is_closed (chans st (out s))" by (simp add: all_open_def)
  from close_each_distinct [OF d this] have ca: "close_all (chans st) (subs st) = Inr ?ch"
    by (simp add: close_all_concat)
  let ?st' = "st\<lparr>chans := ?ch, running := False\<rparr>"
  from ca assms(2) have ex: "exec st Close = Inr ?st'" by (simp add: deliver_def)
  have mem: "\<And>c s. s \<in> set (subs_of (subs st) c) \<Longrightarrow> s \<in> set ?L"
  proof -
    fix c s assume "s \<in> set (subs_of (subs st) c)"
    moreover from ok have "distinct (map fst (subs st))" by (simp add: sys_ok_def table_ok_def)
    ultimately show "s \<in> set ?L" using set_concat_table [of "subs st"] by blast
  qed
  have "\<forall>c. \<forall>s \<in> set (subs_of (subs st) c).
           \<not> is_closed (chans st (out s)) \<and> is_closed (chans ?st' (out s))
           \<and> count_list (map out ?L) (out s) = 1"
  proof (intro allI ballI conjI)
    fix c s assume s: "s \<in> set (subs_of (subs st) c)"
    from op show "\<not> is_closed (chans st (out s))" by (simp add: all_open_def)
    from mem [OF s] show "is_closed (chans ?st' (out s))" by simp
    from mem [OF s] have "out s \<in> set (map out ?L)" by simp
    from distinct_count_list [OF d this] show "count_list (map out ?L) (out s) = 1" .
  qed
  moreover have "\<forall>n. received (chans ?st' n) = received (chans st n)" by simp
  moreover have "\<forall>n. n \<notin> out ` set ?L \<longrightarrow> chans ?st' n = chans st n" by simp
  moreover have "\<not> running ?st'" "subs ?st' = subs st" by simp_all
  ultimately show ?thesis using ex by blast
qed

theorem shutdown_closes_each_path_once_witness:
  "execs new_server news_calls = Inr news_state \<and> running news_state
   \<and> (\<exists>st'. exec news_state Close = Inr st' \<and> \<not> running st'
         \<and> news_sub \<in> set (subs_of (subs news_state) ''news'')
         \<and> is_closed (chans st' (out news_sub)) \<and> is_closed (chans st' (out sports_sub))
         \<and> \<not> is_closed (chans st' 2))"
proof -
  have r: "running news_state" by (simp add: news_state_def)
  from shutdown_closes_each_path_once [OF news_state_reached r]
  obtain st' where st': "exec news_state Close = Inr st'" "\<not> running st'" by blast
  from st'(1) have eq: "st' = news_state_closed" by (simp only: news_state_close sum.inject)
  have m: "news_sub \<in> set (subs_of (subs news_state) ''news'')"
    by (simp add: news_state_def subs_of_def)
  have c: "is_closed (chans st' (out news_sub))" "is_closed (chans st' (out sports_sub))"
    "\<not> is_closed (chans st' 2)"
    by (simp_all add: eq news_state_def news_state_closed_def news_sub_def sports_sub_def)
  from news_state_reached r st' m c show ?thesis by blast
qed

subsection \<open>The publish case\<close>

lemma count_list_map_inj:
  assumes "inj_on f (insert x (set xs))"
  shows "count_list (map f xs) (f x) = count_list xs x"
proof (cases "x \<in> set xs")
  case True
  from assms have "inj_on f (set xs)" by (rule inj_on_subset) auto
  from count_list_inj_map [OF this True] show ?thesis .
next
  case False
  have "f x \<notin> f ` set xs"
  proof
    assume "f x \<in> f ` set xs"
    then obtain y where y: "y \<in> set xs" "f x = f y" by blast
    from inj_onD [OF assms y(2)] y(1) have "x = y" by simp
    with y(1) False show False by simp
  qed
  then have "count_list (map f xs) (f x) = 0" by (simp add: count_list_0_iff)
  with False show ?thesis by (simp add: count_list_0_iff)
qed

lemma distinct_count_list_if: "distinct xs \<Longrightarrow> count_list xs x = (if x \<in> set xs then 1 else 0)"
  by (induction xs) auto

lemma count_out_subs_of:
  assumes "sys_ok st" "s \<in> set (handlers st)"
  shows "count_list (map out (subs_of (subs st) c)) (out s) =
           (if c = channel s \<and> s \<in> set (subs_of (subs st) (channel s)) then 1 else 0)"
proof -
  let ?xs = "subs_of (subs st) c"
  from assms have "insert s (set ?xs) \<subseteq> set (handlers st)" by (simp add: sys_ok_def)
  from inj_on_subset [OF sys_ok_inj [OF assms(1)] this]
  have "count_list (map out ?xs) (out s) = count_list ?xs s"
    by (rule count_list_map_inj)
  moreover from assms(1) have "distinct ?xs" by (simp add: sys_ok_def table_ok_def)
  ultimately have eq: "count_list (map out ?xs) (out s) = (if s \<in> set ?xs then 1 else 0)"
    by (simp add: distinct_count_list_if)
  from assms(1) have ch: "\<forall>s' \<in> set ?xs. channel s' = c" by (simp add: sys_ok_def table_ok_def)
  show ?thesis
  proof (cases "s \<in> set ?xs")
    case True
    with ch have "channel s = c" by blast
    with True eq show ?thesis by simp
  next
    case False
    then have "\<not> (c = channel s \<and> s \<in> set (subs_of (subs st) (channel s)))" by blast
    with False eq show ?thesis by simp
  qed
qed

lemma count_out_targets:
  assumes "sys_ok st" "s \<in> set (handlers st)"
  shows "count_list (map out (targets (subs st) cs)) (out s) =
           (if s \<in> set (subs_of (subs st) (channel s)) then count_list cs (channel s) else 0)"
proof (induction cs)
  case Nil
  show ?case by (simp add: targets_def)
next
  case (Cons c cs)
  have "count_list (map out (targets (subs st) (c # cs))) (out s)
      = count_list (map out (subs_of (subs st) c)) (out s)
        + count_list (map out (targets (subs st) cs)) (out s)"
    by (simp add: targets_def)
  also have "\<dots> = (if c = channel s \<and> s \<in> set (subs_of (subs st) (channel s)) then 1 else 0)
        + (if s \<in> set (subs_of (subs st) (channel s)) then count_list cs (channel s) else 0)"
    by (simp only: Cons.IH count_out_subs_of [OF assms])
  also have "\<dots> = (if s \<in> set (subs_of (subs st) (channel s)) then count_list (c # cs) (channel s) else 0)"
    by simp
  finally show ?case .
qed

lemma targets_handlers:
  assumes "sys_ok st"
  shows "set (targets (subs st) cs) \<subseteq> set (handlers st)"
  using assms by (auto simp: targets_def sys_ok_def)

lemma targets_channel:
  assumes "sys_ok st" "s \<in> set (targets (subs st) cs)"
  shows "channel s \<in> set cs \<and> s \<in> set (subs_of (subs st) (channel s))"
proof -
  from assms(2) obtain c where c: "c \<in> set cs" "s \<in> set (subs_of (subs st) c)"
    by (auto simp: targets_def)
  with assms(1) have "channel s = c" by (auto simp: sys_ok_def table_ok_def)
  with c show ?thesis by simp
qed

lemma served_subset: "set (served st cs) \<subseteq> set (targets (subs st) cs)"
  by (auto simp: served_def dest: set_takeWhileD)

lemma served_receiving: "s \<in> set (served st cs) \<Longrightarrow> receiving (chans st) s"
  by (auto simp: served_def dest: set_takeWhileD)

lemma count_out_served:
  assumes "sys_ok st" "s \<in> set (handlers st)"
  shows "count_list (map out (served st cs)) (out s) = count_list (served st cs) s"
proof -
  from assms(2) served_subset [of st cs] targets_handlers [OF assms(1), of cs]
  have "insert s (set (served st cs)) \<subseteq> set (handlers st)" by blast
  from inj_on_subset [OF sys_ok_inj [OF assms(1)] this] show ?thesis
    by (rule count_list_map_inj)
qed

lemma left_state_reached: "execs new_server left_calls = Inr left_state"
  by (simp add: left_calls_def left_state_def reader_a_def reader_b_def new_server_def
      deliver_def register_sub_def subs_of_def start_replay_def leave_def Let_def numeral_2_eq_2
      fun_eq_iff)

text \<open>
  C1, as the spec states it, fails: two clients are subscribed to news and the
  \<^verbatim>\<open>Handler\<close> of one has left its loop when \<^verbatim>\<open>run\<close> takes a publish to news, before it
  takes that \<^verbatim>\<open>Handler\<close>'s unregister. Both subscriptions are in the subscriber set of
  news; \<^verbatim>\<open>run\<close> blocks for ever in the send to the one whose \<^verbatim>\<open>Handler\<close> has left, which
  never receives the event; here that send comes first and the other subscription does
  not receive the event either.
\<close>

theorem publish_blocks_counterexample:
  "execs new_server
     [Connect ''news'' [], Connect ''news'' [], Leave reader_b, Publish [''news''] ''9'']
     = Inr stalled_state
   \<and> subs_of (subs stalled_state) ''news'' = [reader_b, reader_a]
   \<and> received (chans stalled_state (out reader_a)) = []
   \<and> received (chans stalled_state (out reader_b)) = []
   \<and> \<not> running stalled_state \<and> blocked stalled_state"
  by (simp add: stalled_state_def left_state_def reader_a_def reader_b_def new_server_def
      deliver_def register_sub_def subs_of_def start_replay_def leave_def send_def Let_def
      numeral_2_eq_2 fun_eq_iff)

text \<open>
  C1, amended. In a state that calls lead to from a new server and in which \<^verbatim>\<open>run\<close> takes
  messages, a publish of \<open>ev\<close> to the channels \<open>cs\<close> does not panic and changes neither the
  table nor \<open>repos\<close> nor the replay goroutines. It sends \<open>ev\<close> to the subscriptions in the
  subscriber sets of the channels of \<open>cs\<close>, in the order of its loops, as far as the first
  one whose \<^verbatim>\<open>Handler\<close> has left its loop (\<open>served\<close>): every subscription receives \<open>ev\<close>,
  after what it had received, once for each time it is served. If the \<^verbatim>\<open>Handler\<close> of every
  subscription in those sets is receiving, \<^verbatim>\<open>run\<close> goes on taking messages and every
  subscription in the set of a channel \<open>c\<close> of \<open>cs\<close> has received \<open>ev\<close> once for every
  occurrence of \<open>c\<close> in \<open>cs\<close> (so at least once). Otherwise \<^verbatim>\<open>run\<close> is blocked for ever in
  the send to the first subscription whose \<^verbatim>\<open>Handler\<close> has left and takes no message
  again. In every case the channel of a handler's subscription is left as it was when the
  subscription's channel is not in \<open>cs\<close>, when the subscription is not in the subscriber
  set of its channel, and when its \<^verbatim>\<open>Handler\<close> has left.
\<close>

theorem publish_delivers_until_blocked:
  assumes "execs new_server calls = Inr st" "running st"
  shows "\<exists>st'. exec st (Publish cs ev) = Inr st'
     \<and> subs st' = subs st \<and> repos st' = repos st \<and> tasks st' = tasks st
     \<and> (\<forall>s \<in> set (handlers st).
           received (chans st' (out s)) =
             received (chans st (out s)) @ replicate (count_list (served st cs) s) ev)
     \<and> ((\<forall>s \<in> set (targets (subs st) cs). receiving (chans st) s) \<longrightarrow>
           running st'
           \<and> (\<forall>c \<in> set cs. \<forall>s \<in> set (subs_of (subs st) c).
                 received (chans st' (out s)) =
                   received (chans st (out s)) @ replicate (count_list cs c) ev
                 \<and> 0 < count_list cs c))
     \<and> ((\<exists>s \<in> set (targets (subs st) cs). \<not> receiving (chans st) s) \<longrightarrow>
           \<not> running st' \<and> blocked st')
     \<and> (\<forall>s \<in> set (handlers st). channel s \<notin> set cs \<longrightarrow> chans st' (out s) = chans st (out s))
     \<and> (\<forall>s \<in> set (handlers st). s \<notin> set (subs_of (subs st) (channel s)) \<longrightarrow>
           chans st' (out s) = chans st (out s))
     \<and> (\<forall>s \<in> set (handlers st). \<not> receiving (chans st) s \<longrightarrow>
           chans st' (out s) = chans st (out s))"
proof -
  let ?A = "\<forall>s \<in> set (targets (subs st) cs). receiving (chans st) s"
  let ?k = "\<lambda>n. count_list (map out (served st cs)) n"
  let ?X = "add_received (chans st) ?k ev"
  let ?st' = "if ?A then st\<lparr>chans := ?X\<rparr> else st\<lparr>chans := ?X, running := False, blocked := True\<rparr>"
  from sys_ok_execs [OF sys_ok_new_server assms(1)] have ok: "sys_ok st" .
  with assms(2) have op: "all_open (chans st)" by (simp add: sys_ok_def)
  have pt: "publish_to (subs st) (chans st) cs ev = Inr (finish ?A ?X)"
    by (simp only: publish_to_open [OF op] served_def)
  have ex: "exec st (Publish cs ev) = Inr ?st'"
  proof (cases ?A)
    case True
    then have eq: "?st' = st\<lparr>chans := ?X\<rparr>" by (rule if_P)
    from pt True have "publish_to (subs st) (chans st) cs ev = Inr (Done ?X)"
      by (simp add: finish_def)
    with assms(2) have "exec st (Publish cs ev) = Inr (st\<lparr>chans := ?X\<rparr>)"
      by (simp add: deliver_def)
    then show ?thesis by (simp only: eq)
  next
    case False
    then have eq: "?st' = st\<lparr>chans := ?X, running := False, blocked := True\<rparr>"
      by (rule if_not_P)
    from pt False have "publish_to (subs st) (chans st) cs ev = Inr (Blocked ?X)"
      by (simp add: finish_def)
    with assms(2) have "exec st (Publish cs ev)
        = Inr (st\<lparr>chans := ?X, running := False, blocked := True\<rparr>)"
      by (simp add: deliver_def)
    then show ?thesis by (simp only: eq)
  qed
  have ch: "chans ?st' = ?X" by simp
  have fr: "subs ?st' = subs st" "repos ?st' = repos st" "tasks ?st' = tasks st" by simp_all
  have k: "\<And>s. s \<in> set (handlers st) \<Longrightarrow> ?k (out s) = count_list (served st cs) s"
    by (rule count_out_served [OF ok])
  have none: "\<And>s. s \<in> set (handlers st) \<Longrightarrow> s \<notin> set (served st cs)
      \<Longrightarrow> chans ?st' (out s) = chans st (out s)"
  proof -
    fix s assume "s \<in> set (handlers st)" "s \<notin> set (served st cs)"
    with k have "?k (out s) = 0" by simp
    then show "chans ?st' (out s) = chans st (out s)"
      by (simp only: ch) (simp add: add_received_def)
  qed
  have a: "\<forall>s \<in> set (handlers st).
           received (chans ?st' (out s)) =
             received (chans st (out s)) @ replicate (count_list (served st cs) s) ev"
  proof
    fix s assume "s \<in> set (handlers st)"
    from k [OF this] show "received (chans ?st' (out s)) =
             received (chans st (out s)) @ replicate (count_list (served st cs) s) ev"
      by (simp only: ch) (simp add: add_received_def)
  qed
  have b: "?A \<longrightarrow> running ?st'
           \<and> (\<forall>c \<in> set cs. \<forall>s \<in> set (subs_of (subs st) c).
                 received (chans ?st' (out s)) =
                   received (chans st (out s)) @ replicate (count_list cs c) ev
                 \<and> 0 < count_list cs c)"
  proof (intro impI conjI ballI)
    assume A: ?A
    with assms(2) show "running ?st'" by simp
    fix c s assume c: "c \<in> set cs" and s: "s \<in> set (subs_of (subs st) c)"
    from ok s have h: "s \<in> set (handlers st)" and cs: "channel s = c"
      by (auto simp: sys_ok_def table_ok_def)
    from A have "served st cs = targets (subs st) cs"
      by (simp add: served_def takeWhile_eq_all_conv)
    with count_out_targets [OF ok h, of cs] s cs have "?k (out s) = count_list cs c" by simp
    then show "received (chans ?st' (out s)) =
                   received (chans st (out s)) @ replicate (count_list cs c) ev"
      by (simp only: ch) (simp add: add_received_def)
    from c show "0 < count_list cs c" using count_list_0_iff [of cs c] by simp
  qed
  have c: "(\<exists>s \<in> set (targets (subs st) cs). \<not> receiving (chans st) s) \<longrightarrow>
           \<not> running ?st' \<and> blocked ?st'"
    by auto
  have d: "\<forall>s \<in> set (handlers st). channel s \<notin> set cs \<longrightarrow> chans ?st' (out s) = chans st (out s)"
  proof (intro ballI impI)
    fix s assume h: "s \<in> set (handlers st)" and n: "channel s \<notin> set cs"
    have "s \<notin> set (served st cs)"
    proof
      assume "s \<in> set (served st cs)"
      with served_subset [of st cs] have "s \<in> set (targets (subs st) cs)" by blast
      from targets_channel [OF ok this] n show False by simp
    qed
    from none [OF h this] show "chans ?st' (out s) = chans st (out s)" .
  qed
  have e: "\<forall>s \<in> set (handlers st). s \<notin> set (subs_of (subs st) (channel s)) \<longrightarrow>
           chans ?st' (out s) = chans st (out s)"
  proof (intro ballI impI)
    fix s assume h: "s \<in> set (handlers st)" and n: "s \<notin> set (subs_of (subs st) (channel s))"
    have "s \<notin> set (served st cs)"
    proof
      assume "s \<in> set (served st cs)"
      with served_subset [of st cs] have "s \<in> set (targets (subs st) cs)" by blast
      from targets_channel [OF ok this] n show False by simp
    qed
    from none [OF h this] show "chans ?st' (out s) = chans st (out s)" .
  qed
  have f: "\<forall>s \<in> set (handlers st). \<not> receiving (chans st) s \<longrightarrow>
           chans ?st' (out s) = chans st (out s)"
  proof (intro ballI impI)
    fix s assume h: "s \<in> set (handlers st)" and n: "\<not> receiving (chans st) s"
    from n served_receiving [of s st cs] have "s \<notin> set (served st cs)" by blast
    from none [OF h this] show "chans ?st' (out s) = chans st (out s)" .
  qed
  show ?thesis
  proof (rule exI [of _ ?st'], intro conjI)
    show "exec st (Publish cs ev) = Inr ?st'" by (rule ex)
  qed (rule fr a b c d e f)+
qed

theorem publish_delivers_until_blocked_witness:
  "execs new_server news_calls = Inr news_state \<and> running news_state
   \<and> targets (subs news_state) [''news''] = [news_sub]
   \<and> receiving (chans news_state) news_sub
   \<and> (\<exists>st'. exec news_state (Publish [''news''] ''9'') = Inr st' \<and> running st'
         \<and> news_sub \<in> set (subs_of (subs news_state) ''news'')
         \<and> received (chans st' (out news_sub)) = [''9'']
         \<and> sports_sub \<in> set (handlers news_state) \<and> channel sports_sub \<notin> set [''news'']
         \<and> chans st' (out sports_sub) = chans news_state (out sports_sub))
   \<and> execs new_server left_calls = Inr left_state \<and> running left_state
   \<and> reader_b \<in> set (targets (subs left_state) [''news''])
   \<and> \<not> receiving (chans left_state) reader_b
   \<and> (\<exists>st'. exec left_state (Publish [''news''] ''9'') = Inr st'
         \<and> \<not> running st' \<and> blocked st'
         \<and> reader_a \<in> set (handlers left_state)
         \<and> count_list (served left_state [''news'']) reader_a = 0
         \<and> received (chans st' (out reader_a)) = []
         \<and> chans st' (out reader_b) = chans left_state (out reader_b))"
proof -
  have r: "running news_state" by (simp add: news_state_def)
  have A: "\<forall>s \<in> set (targets (subs news_state) [''news'']). receiving (chans news_state) s"
    by (simp add: news_state_def targets_def subs_of_def receiving_def)
  from publish_delivers_until_blocked [OF news_state_reached r, of "[''news'']" "''9''"]
  obtain st1 where st1: "exec news_state (Publish [''news''] ''9'') = Inr st1"
    and a1: "(\<forall>s \<in> set (targets (subs news_state) [''news'']). receiving (chans news_state) s) \<longrightarrow>
           running st1
           \<and> (\<forall>c \<in> set [''news'']. \<forall>s \<in> set (subs_of (subs news_state) c).
                 received (chans st1 (out s)) =
                   received (chans news_state (out s)) @ replicate (count_list [''news''] c) ''9''
                 \<and> 0 < count_list [''news''] c)"
    and b1: "\<forall>s \<in> set (handlers news_state). channel s \<notin> set [''news''] \<longrightarrow>
           chans st1 (out s) = chans news_state (out s)"
    by blast
  have m: "news_sub \<in> set (subs_of (subs news_state) ''news'')"
    by (simp add: news_state_def subs_of_def)
  from a1 A have run1: "running st1" by blast
  from a1 A m have "received (chans st1 (out news_sub))
      = received (chans news_state (out news_sub)) @ [''9'']"
    by simp
  then have 1: "received (chans st1 (out news_sub)) = [''9'']"
    by (simp add: news_state_def)
  have h: "sports_sub \<in> set (handlers news_state)" "channel sports_sub \<notin> set [''news'']"
    by (simp_all add: news_state_def sports_sub_def)
  with b1 have 2: "chans st1 (out sports_sub) = chans news_state (out sports_sub)" by blast
  have tg: "targets (subs news_state) [''news''] = [news_sub]"
    "receiving (chans news_state) news_sub"
    by (simp_all add: news_state_def targets_def subs_of_def receiving_def)
  have r': "running left_state" by (simp add: left_state_def)
  have tb:"reader_b \<in> set (targets (subs left_state) [''news''])"
    by (simp add: left_state_def targets_def subs_of_def)
  have nb: "\<not> receiving (chans left_state) reader_b"
    by (simp add: left_state_def receiving_def reader_b_def)
  from publish_delivers_until_blocked [OF left_state_reached r', of "[''news'']" "''9''"]
  obtain st2 where st2: "exec left_state (Publish [''news''] ''9'') = Inr st2"
    and a2: "\<forall>s \<in> set (handlers left_state).
           received (chans st2 (out s)) =
             received (chans left_state (out s))
               @ replicate (count_list (served left_state [''news'']) s) ''9''"
    and c2: "(\<exists>s \<in> set (targets (subs left_state) [''news'']). \<not> receiving (chans left_state) s)
           \<longrightarrow> \<not> running st2 \<and> blocked st2"
    and f2: "\<forall>s \<in> set (handlers left_state). \<not> receiving (chans left_state) s \<longrightarrow>
           chans st2 (out s) = chans left_state (out s)"
    by blast
  from c2 tb nb have blk: "\<not> running st2" "blocked st2" by blast+
  have ha: "reader_a \<in> set (handlers left_state)" and hb: "reader_b \<in> set (handlers left_state)"
    by (simp_all add: left_state_def)
  have sv: "count_list (served left_state [''news'']) reader_a = 0"
    by (simp add: served_def left_state_def targets_def subs_of_def receiving_def reader_b_def)
  from a2 ha sv have 3: "received (chans st2 (out reader_a)) = []"
    by (simp add: left_state_def)
  from f2 hb nb have 4: "chans st2 (out reader_b) = chans left_state (out reader_b)" by blast
  from news_state_reached r tg st1 run1 m 1 h 2 left_state_reached r' tb nb st2 blk ha sv 3 4
  show ?thesis by blast
qed

subsection \<open>The unregister and registration cases\<close>

text \<open>
  C10. The unregister case leaves the channels (so the \<open>out\<close> of the subscription stays as
  it was, open if it was open), \<open>repos\<close> and the replay goroutines as they were, and
  changes the table only by removing the subscription from the set of its channel. No case
  of \<^verbatim>\<open>run\<close> other than quit, and no iteration of a replay goroutine, opens or closes a
  channel: only the quit case calls \<^verbatim>\<open>close\<close>.
\<close>

theorem unsubscribe_frame:
  "(\<exists>st'. run_case st (Unregister sub) = Inr st'
       \<and> chans st' = chans st \<and> repos st' = repos st \<and> tasks st' = tasks st
       \<and> running st' = running st
       \<and> (\<forall>c. subs_of (subs st') c =
               (if c = channel sub then removeAll sub (subs_of (subs st) c)
                else subs_of (subs st) c)))
   \<and> (\<forall>m st' n. m \<noteq> Quit \<and> run_case st m = Inr st' \<longrightarrow>
          is_closed (chans st' n) = is_closed (chans st n))
   \<and> (\<forall>k st' n. replay_step st k = Inr st' \<longrightarrow>
          is_closed (chans st' n) = is_closed (chans st n))"
proof (intro conjI allI impI)
  show "\<exists>st'. run_case st (Unregister sub) = Inr st'
       \<and> chans st' = chans st \<and> repos st' = repos st \<and> tasks st' = tasks st
       \<and> running st' = running st
       \<and> (\<forall>c. subs_of (subs st') c =
               (if c = channel sub then removeAll sub (subs_of (subs st) c)
                else subs_of (subs st) c))"
    by (simp add: subs_of_unregister)
next
  fix m st' n
  assume "m \<noteq> Quit \<and> run_case st m = Inr st'"
  then have "m \<noteq> Quit" "run_case st m = Inr st'" by simp_all
  then show "is_closed (chans st' n) = is_closed (chans st n)"
    by (rule run_case_is_closed)
next
  fix k st' n
  assume "replay_step st k = Inr st'"
  then show "is_closed (chans st' n) = is_closed (chans st n)"
    by (rule replay_step_is_closed)
qed

theorem unsubscribe_frame_witness:
  "(\<exists>st'. run_case news_state (Unregister news_sub) = Inr st'
        \<and> subs_of (subs st') ''news'' = [] \<and> subs_of (subs st') ''sports'' = [sports_sub]
        \<and> \<not> is_closed (chans st' (out news_sub)) \<and> repos st' = repos news_state)
   \<and> (\<exists>st'. Outbound [''news''] ''9'' \<noteq> Quit
        \<and> run_case news_state (Outbound [''news''] ''9'') = Inr st'
        \<and> is_closed (chans st' 0) = is_closed (chans news_state 0))
   \<and> (\<exists>st'. replay_step news_state 0 = Inr st'
        \<and> is_closed (chans st' 0) = is_closed (chans news_state 0))"
proof -
  note f = unsubscribe_frame [of news_state news_sub]
  from f obtain st1 where st1: "run_case news_state (Unregister news_sub) = Inr st1"
    "chans st1 = chans news_state" "repos st1 = repos news_state"
    "\<forall>c. subs_of (subs st1) c =
               (if c = channel news_sub then removeAll news_sub (subs_of (subs news_state) c)
                else subs_of (subs news_state) c)"
    by blast
  from st1(4) have a: "subs_of (subs st1) ''news'' = []" "subs_of (subs st1) ''sports'' = [sports_sub]"
    by (simp_all add: news_state_def news_sub_def subs_of_def)
  from st1(2) have b: "\<not> is_closed (chans st1 (out news_sub))"
    by (simp add: news_state_def)
  obtain st2 where st2: "run_case news_state (Outbound [''news''] ''9'') = Inr st2"
    by (simp add: news_state_def news_sub_def subs_of_def send_def)
  from f st2 have c: "is_closed (chans st2 0) = is_closed (chans news_state 0)"
    by blast
  obtain st3 where st3: "replay_step news_state 0 = Inr st3"
    by (simp add: news_state_def news_sub_def replay_step_def task_events_def send_def Let_def)
  from f st3 have d: "is_closed (chans st3 0) = is_closed (chans news_state 0)"
    by blast
  from st1(1,3) a b st2 c st3 d show ?thesis by blast
qed

text \<open>
  C7. \<open>repos\<close> is a map: a channel has at most one repository. A registration for channel
  \<open>c\<close> makes \<open>repo\<close> the repository of \<open>c\<close>, replacing any earlier one, and changes
  nothing else; a subscription to \<open>c\<close> with a nonempty \<open>lastEventId\<close> received afterwards
  starts its replay goroutine with \<open>repo\<close>; the replay goroutines started before keep
  the repository they were started with, and every iteration of theirs does after the
  registration what it would have done before it.
\<close>

theorem register_replaces:
  "\<exists>st'. run_case st (Registration c repo) = Inr st'
     \<and> repos st' = (repos st)(c \<mapsto> repo)
     \<and> subs st' = subs st \<and> tasks st' = tasks st \<and> chans st' = chans st
     \<and> (\<forall>sub. channel sub = c \<and> lastEventId sub \<noteq> [] \<longrightarrow>
           (\<exists>st2. run_case st' (Subs sub) = Inr st2
              \<and> tasks st2 = tasks st @ [\<lparr>task_repo = repo, task_sub = sub, task_pos = 0\<rparr>]))
     \<and> (\<forall>k. replay_step st' k =
           (case replay_step st k of Inl f \<Rightarrow> Inl f | Inr s \<Rightarrow> Inr (s\<lparr>repos := (repos st)(c \<mapsto> repo)\<rparr>)))"
  by (auto simp: start_replay_def replay_step_def Let_def split: sum.splits progress.splits)

theorem register_replaces_witness:
  "\<exists>st'. run_case news_state (Registration ''news'' late_history) = Inr st'
     \<and> repos news_state ''news'' = Some news_history
     \<and> repos st' ''news'' = Some late_history
     \<and> tasks st' = tasks news_state
     \<and> channel (news_sub\<lparr>out := 2\<rparr>) = ''news'' \<and> lastEventId (news_sub\<lparr>out := 2\<rparr>) \<noteq> []
     \<and> (\<exists>st2. run_case st' (Subs (news_sub\<lparr>out := 2\<rparr>)) = Inr st2
           \<and> tasks st2 = tasks news_state
               @ [\<lparr>task_repo = late_history, task_sub = news_sub\<lparr>out := 2\<rparr>, task_pos = 0\<rparr>])
     \<and> (\<exists>st3. replay_step st' 0 = Inr st3 \<and> received (chans st3 0) = [''6''])"
proof -
  from register_replaces [of news_state "''news''" late_history]
  obtain st' where st': "run_case news_state (Registration ''news'' late_history) = Inr st'"
    "repos st' = (repos news_state)(''news'' \<mapsto> late_history)" "tasks st' = tasks news_state"
    and s: "\<forall>sub. channel sub = ''news'' \<and> lastEventId sub \<noteq> [] \<longrightarrow>
           (\<exists>st2. run_case st' (Subs sub) = Inr st2
              \<and> tasks st2 = tasks news_state @ [\<lparr>task_repo = late_history, task_sub = sub, task_pos = 0\<rparr>])"
    and k: "\<forall>k. replay_step st' k =
           (case replay_step news_state k of Inl f \<Rightarrow> Inl f
            | Inr s \<Rightarrow> Inr (s\<lparr>repos := (repos news_state)(''news'' \<mapsto> late_history)\<rparr>))"
    by blast
  have c: "channel (news_sub\<lparr>out := 2\<rparr>) = ''news''" "lastEventId (news_sub\<lparr>out := 2\<rparr>) \<noteq> []"
    by (simp_all add: news_sub_def)
  with s have 1: "\<exists>st2. run_case st' (Subs (news_sub\<lparr>out := 2\<rparr>)) = Inr st2
           \<and> tasks st2 = tasks news_state
               @ [\<lparr>task_repo = late_history, task_sub = news_sub\<lparr>out := 2\<rparr>, task_pos = 0\<rparr>]"
    by blast
  obtain s3 where s3: "replay_step news_state 0 = Inr s3" "received (chans s3 0) = [''6'']"
    by (simp add: news_state_def news_sub_def replay_step_def task_events_def send_def Let_def)
  from k s3(1) have "replay_step st' 0 = Inr (s3\<lparr>repos := (repos news_state)(''news'' \<mapsto> late_history)\<rparr>)"
    by simp
  with s3(2) have 2: "\<exists>st3. replay_step st' 0 = Inr st3 \<and> received (chans st3 0) = [''6'']"
    by simp
  have 3: "repos news_state ''news'' = Some news_history" by (simp add: news_state_def)
  from st'(2) have 4: "repos st' ''news'' = Some late_history" by simp
  from st'(1,3) 1 2 3 4 c show ?thesis by blast
qed

subsection \<open>Sending on a closed channel\<close>

text \<open>
  C2, as the spec states it, fails: after \<^verbatim>\<open>Close\<close> has closed the channel of a
  subscription, the next iteration of its replay goroutine panics.
\<close>

theorem push_after_close_counterexample:
  "execs new_server
     [Register ''news'' news_history, Connect ''news'' ''5'', Close, ReplayNext 0]
   = Inl SendOnClosedChannel"
  by (simp add: new_server_def deliver_def register_sub_def subs_of_def start_replay_def
      close_chan_def replay_step_def task_events_def send_def Let_def)

text \<open>
  C2, amended. Once \<^verbatim>\<open>run\<close> takes no message any more (after \<^verbatim>\<open>Close\<close> it has
  returned), a publish is never taken: it sends nothing,
  changes nothing and does not panic. A send on a closed channel is the panic
  \<open>SendOnClosedChannel\<close>, not a no-op; so an iteration of a replay goroutine that still has
  an event to send panics when the channel of its subscription is closed. A replay
  goroutine that has sent all its events sends nothing and does not panic.
\<close>

theorem push_on_closed_path:
  "(\<not> running st \<longrightarrow> exec st (Publish cs ev) = Inr st)
   \<and> (is_closed (ch n) \<longrightarrow> send ch n ev = Inl SendOnClosedChannel)
   \<and> (k < length (tasks st) \<and> task_pos (tasks st ! k) < length (task_events (tasks st ! k))
        \<and> is_closed (chans st (out (task_sub (tasks st ! k)))) \<longrightarrow>
      exec st (ReplayNext k) = Inl SendOnClosedChannel)
   \<and> (k < length (tasks st) \<and> length (task_events (tasks st ! k)) \<le> task_pos (tasks st ! k) \<longrightarrow>
      exec st (ReplayNext k) = Inr st)"
  by (simp add: deliver_def send_def replay_step_def Let_def)

theorem push_on_closed_path_witness:
  "\<not> running news_state_closed
   \<and> exec news_state_closed (Publish [''news''] ''9'') = Inr news_state_closed
   \<and> is_closed (chans news_state_closed 0)
   \<and> send (chans news_state_closed) 0 ''9'' = Inl SendOnClosedChannel
   \<and> exec news_state_closed (ReplayNext 0) = Inl SendOnClosedChannel
   \<and> exec (news_state_closed\<lparr>tasks :=
              [\<lparr>task_repo = news_history, task_sub = news_sub, task_pos = 3\<rparr>]\<rparr>) (ReplayNext 0)
       = Inr (news_state_closed\<lparr>tasks :=
              [\<lparr>task_repo = news_history, task_sub = news_sub, task_pos = 3\<rparr>]\<rparr>)"
  using push_on_closed_path
      [of news_state_closed "[''news'']" "''9''" "chans news_state_closed" 0 0]
    push_on_closed_path
      [of "news_state_closed\<lparr>tasks :=
              [\<lparr>task_repo = news_history, task_sub = news_sub, task_pos = 3\<rparr>]\<rparr>"
          "[''news'']" "''9''" "chans news_state_closed" 0 0]
  by (simp add: news_state_closed_def news_state_def news_sub_def task_events_def)

subsection \<open>Replay\<close>

text \<open>\<^verbatim>\<open>replay\<close> run to its end with no other sender, on an open channel.\<close>

lemma send_all_open:
  "\<not> is_closed (ch n) \<Longrightarrow> \<not> deserted (ch n) \<Longrightarrow>
     send_all ch n evs = Inr (Done (ch(n := (ch n)\<lparr>received := received (ch n) @ evs\<rparr>)))"
proof (induction evs arbitrary: ch)
  case Nil
  then show ?case by simp
next
  case (Cons ev evs)
  let ?ch1 = "ch(n := (ch n)\<lparr>received := received (ch n) @ [ev]\<rparr>)"
  from Cons.prems have "send_all ch n (ev # evs) = send_all ?ch1 n evs"
    by (simp add: send_def)
  also from Cons.prems have "\<dots> = Inr (Done (?ch1(n := (?ch1 n)\<lparr>received := received (?ch1 n) @ evs\<rparr>)))"
    by (intro Cons.IH) simp_all
  also have "?ch1(n := (?ch1 n)\<lparr>received := received (?ch1 n) @ evs\<rparr>)
      = ch(n := (ch n)\<lparr>received := received (ch n) @ ev # evs\<rparr>)"
    by simp
  finally show ?case .
qed

lemma replay_open:
  "\<not> is_closed (ch (out sub)) \<Longrightarrow> \<not> deserted (ch (out sub)) \<Longrightarrow>
     replay repo sub ch =
       Inr (Done (ch(out sub := (ch (out sub))\<lparr>received :=
              received (ch (out sub)) @ repo (channel sub) (lastEventId sub)\<rparr>)))"
  by (simp add: replay_def send_all_open)

text \<open>What one step does to a replay goroutine and to the channel of its subscription.\<close>

lemma send_received:
  "send ch n ev = Inr r \<Longrightarrow> \<exists>new. received (store r m) = received (ch m) @ new"
  by (auto simp: send_def split: if_splits)

lemma send_each_received:
  "send_each ch ss ev = Inr r \<Longrightarrow> \<exists>new. received (store r m) = received (ch m) @ new"
proof (induction ss arbitrary: ch)
  case Nil
  then show ?case by auto
next
  case (Cons s ss)
  from Cons.prems obtain r1 where r1: "send ch (out s) ev = Inr r1"
    by (cases "send ch (out s) ev") simp_all
  from send_received [OF r1] obtain a where a: "received (store r1 m) = received (ch m) @ a"
    by blast
  show ?case
  proof (cases r1)
    case (Done ch1)
    with r1 Cons.prems have "send_each ch1 ss ev = Inr r" by simp
    from Cons.IH [OF this] obtain b where "received (store r m) = received (ch1 m) @ b" by blast
    with a Done have "received (store r m) = received (ch m) @ (a @ b)" by simp
    then show ?thesis by blast
  next
    case (Blocked ch1)
    with r1 Cons.prems have "r = r1" by simp
    with a show ?thesis by blast
  qed
qed

lemma publish_to_received:
  "publish_to t ch cs ev = Inr r \<Longrightarrow> \<exists>new. received (store r m) = received (ch m) @ new"
proof (induction cs arbitrary: ch)
  case Nil
  then show ?case by auto
next
  case (Cons c cs)
  from Cons.prems obtain r1 where r1: "send_each ch (subs_of t c) ev = Inr r1"
    by (cases "send_each ch (subs_of t c) ev") simp_all
  from send_each_received [OF r1] obtain a where a: "received (store r1 m) = received (ch m) @ a"
    by blast
  show ?case
  proof (cases r1)
    case (Done ch1)
    with r1 Cons.prems have "publish_to t ch1 cs ev = Inr r" by simp
    from Cons.IH [OF this] obtain b where "received (store r m) = received (ch1 m) @ b" by blast
    with a Done have "received (store r m) = received (ch m) @ (a @ b)" by simp
    then show ?thesis by blast
  next
    case (Blocked ch1)
    with r1 Cons.prems have "r = r1" by simp
    with a show ?thesis by blast
  qed
qed

lemma run_case_received:
  assumes "run_case st m = Inr st'"
  shows "\<exists>new. received (chans st' n) = received (chans st n) @ new"
proof (cases m)
  case (Outbound cs ev)
  with assms run_case_publish [of st cs ev st'] obtain r where
    "publish_to (subs st) (chans st) cs ev = Inr r" "chans st' = store r" by blast
  with publish_to_received [of "subs st" "chans st" cs ev r n] show ?thesis by simp
next
  case Quit
  with assms obtain ch where ch: "close_all (chans st) (subs st) = Inr ch"
    "st' = st\<lparr>chans := ch, running := False\<rparr>"
    by (cases "close_all (chans st) (subs st)") auto
  from ch(1) have "received (ch n) = received (chans st n)"
    by (simp add: close_all_concat close_each_fields)
  with ch(2) show ?thesis by simp
next
  case (Registration c repo)
  with assms show ?thesis by auto
next
  case (Unregister sub)
  with assms show ?thesis by auto
next
  case (Subs sub)
  with assms show ?thesis by auto
qed

lemma run_case_tasks:
  assumes "run_case st m = Inr st'" "k < length (tasks st)"
  shows "k < length (tasks st') \<and> tasks st' ! k = tasks st ! k"
proof (cases m)
  case (Outbound cs ev)
  with assms run_case_publish [of st cs ev st'] show ?thesis by auto
next
  case Quit
  with assms show ?thesis by (auto split: sum.splits)
next
  case (Registration c repo)
  with assms show ?thesis by auto
next
  case (Unregister sub)
  with assms show ?thesis by auto
next
  case (Subs sub)
  with assms show ?thesis by (auto simp: start_replay_def nth_append split: option.splits)
qed

lemma task_progress_same:
  assumes "k < length (tasks st')" "tasks st' ! k = tasks st ! k"
    "\<exists>new. received (chans st' (out (task_sub (tasks st ! k))))
             = received (chans st (out (task_sub (tasks st ! k)))) @ new"
  shows "task_progress st st' k"
  using assms by (simp add: task_progress_def)

lemma deliver_progress:
  assumes "deliver st m = Inr st'" "k < length (tasks st)"
    "tasks st0 = tasks st" "\<And>n. received (chans st0 n) = received (chans st n)"
  shows "task_progress st0 st' k"
proof (cases "running st")
  case True
  with assms(1) have rc: "run_case st m = Inr st'" by (simp add: deliver_def)
  from run_case_tasks [OF rc assms(2)] run_case_received [OF rc] assms(3,4)
  show ?thesis by (intro task_progress_same) simp_all
next
  case False
  with assms(1) have "st' = st" by (simp add: deliver_def)
  with assms show ?thesis by (intro task_progress_same) simp_all
qed

lemma task_events_pos [simp]: "task_events (t\<lparr>task_pos := p\<rparr>) = task_events t"
  by (simp add: task_events_def)

lemma replay_step_cases:
  assumes "replay_step st j = Inr st'"
  shows "st' = st \<or>
     (j < length (tasks st) \<and> task_pos (tasks st ! j) < length (task_events (tasks st ! j))
      \<and> st' = st\<lparr>chans := (chans st)(out (task_sub (tasks st ! j)) :=
                    (chans st (out (task_sub (tasks st ! j))))\<lparr>received :=
                       received (chans st (out (task_sub (tasks st ! j))))
                         @ [task_events (tasks st ! j) ! task_pos (tasks st ! j)]\<rparr>),
                  tasks := (tasks st)[j := (tasks st ! j)\<lparr>task_pos := Suc (task_pos (tasks st ! j))\<rparr>]\<rparr>)"
  using assms
  by (auto simp: replay_step_def Let_def send_def split: if_splits)

lemma leave_progress:
  assumes "k < length (tasks st)"
  shows "task_progress st (leave st sub) k"
  using assms by (intro task_progress_same) (simp_all add: leave_def)

lemma take_Suc_drop:
  "p < length xs \<Longrightarrow> take (Suc 0) (drop p xs) = [xs ! p]"
  using Cons_nth_drop_Suc [of p xs] by (cases "drop p xs") simp_all

lemma replay_step_progress:
  assumes "replay_step st j = Inr st'" "k < length (tasks st)"
  shows "task_progress st st' k"
proof -
  let ?t = "tasks st ! j"
  let ?n = "out (task_sub ?t)"
  from replay_step_cases [OF assms(1)] show ?thesis
  proof
    assume "st' = st"
    with assms(2) show ?thesis by (simp add: task_progress_def)
  next
    assume a: "j < length (tasks st) \<and> task_pos ?t < length (task_events ?t)
      \<and> st' = st\<lparr>chans := (chans st)(?n := (chans st ?n)\<lparr>received :=
                       received (chans st ?n) @ [task_events ?t ! task_pos ?t]\<rparr>),
                  tasks := (tasks st)[j := ?t\<lparr>task_pos := Suc (task_pos ?t)\<rparr>]\<rparr>"
    then have j: "j < length (tasks st)" and p: "task_pos ?t < length (task_events ?t)"
      and ts: "tasks st' = (tasks st)[j := ?t\<lparr>task_pos := Suc (task_pos ?t)\<rparr>]"
      and ch: "chans st' = (chans st)(?n := (chans st ?n)\<lparr>received :=
                       received (chans st ?n) @ [task_events ?t ! task_pos ?t]\<rparr>)"
      by simp_all
    show ?thesis
    proof (cases "j = k")
      case True
      with ts assms(2) have t': "tasks st' ! k = ?t\<lparr>task_pos := Suc (task_pos ?t)\<rparr>"
        "k < length (tasks st')" by simp_all
      from ch have r: "received (chans st' ?n) = received (chans st ?n) @ [task_events ?t ! task_pos ?t]"
        by simp
      from p have "take (Suc (task_pos ?t) - task_pos ?t) (drop (task_pos ?t) (task_events ?t))
          = [task_events ?t ! task_pos ?t]"
        by (simp add: take_Suc_drop)
      with t' r True show ?thesis
        by (simp add: task_progress_def)
    next
      case False
      with ts assms(2) have t': "tasks st' ! k = tasks st ! k" "k < length (tasks st')" by simp_all
      from ch have "\<exists>new. received (chans st' (out (task_sub (tasks st ! k))))
             = received (chans st (out (task_sub (tasks st ! k)))) @ new"
        by simp
      with t' show ?thesis by (intro task_progress_same)
    qed
  qed
qed

lemma exec_progress:
  assumes "exec st a = Inr st'" "k < length (tasks st)"
  shows "task_progress st st' k"
proof (cases a)
  case (Register c repo)
  with assms(1) have "deliver st (Registration c repo) = Inr st'" by simp
  from deliver_progress [OF this assms(2)] show ?thesis by simp
next
  case (Publish cs ev)
  with assms(1) have "deliver st (Outbound cs ev) = Inr st'" by simp
  from deliver_progress [OF this assms(2)] show ?thesis by simp
next
  case Close
  with assms(1) have "deliver st Quit = Inr st'" by simp
  from deliver_progress [OF this assms(2)] show ?thesis by simp
next
  case (Disconnect sub)
  with assms(1) have d: "deliver (leave st sub) (Unregister sub) = Inr st'" by simp
  from assms(2) have k: "k < length (tasks (leave st sub))" by (simp add: leave_def)
  from deliver_progress [OF d k, of st] show ?thesis by (simp add: leave_def)
next
  case (Leave sub)
  with assms(1) have "st' = leave st sub" by simp
  with leave_progress [OF assms(2)] show ?thesis by simp
next
  case (Connect c l)
  let ?sub = "\<lparr>channel = c, lastEventId = l, out = next_chan st\<rparr>"
  let ?st1 = "st\<lparr>chans := (chans st)(next_chan st :=
                              (chans st (next_chan st))\<lparr>deserted := False\<rparr>),
                  next_chan := Suc (next_chan st), handlers := handlers st @ [?sub]\<rparr>"
  from assms(1) Connect have d: "deliver ?st1 (Subs ?sub) = Inr st'" by (simp add: Let_def)
  from assms(2) have k: "k < length (tasks ?st1)" by simp
  from deliver_progress [OF d k, of st] show ?thesis by simp
next
  case (ReplayNext j)
  with assms(1) have "replay_step st j = Inr st'" by simp
  from replay_step_progress [OF this assms(2)] show ?thesis .
qed

lemma take_segments:
  assumes "p0 \<le> p1" "p1 \<le> (p2::nat)"
  shows "take (p2 - p0) (drop p0 xs) = take (p1 - p0) (drop p0 xs) @ take (p2 - p1) (drop p1 xs)"
proof -
  from assms have "p2 - p0 = (p1 - p0) + (p2 - p1)" by simp
  then have "take (p2 - p0) (drop p0 xs)
      = take (p1 - p0) (drop p0 xs) @ take (p2 - p1) (drop (p1 - p0) (drop p0 xs))"
    by (simp only: take_add)
  moreover from assms(1) have "drop (p1 - p0) (drop p0 xs) = drop p1 xs" by simp
  ultimately show ?thesis by simp
qed

lemma task_progress_trans:
  assumes "task_progress st st1 k" "task_progress st1 st2 k"
  shows "task_progress st st2 k"
proof -
  let ?t = "tasks st ! k" and ?t1 = "tasks st1 ! k" and ?t2 = "tasks st2 ! k"
  let ?n = "out (task_sub ?t)"
  let ?evs = "task_events ?t"
  from assms(1) obtain a where 1: "k < length (tasks st1)" "task_repo ?t1 = task_repo ?t"
    "task_sub ?t1 = task_sub ?t" "task_pos ?t \<le> task_pos ?t1"
    "received (chans st1 ?n) = received (chans st ?n) @ a"
    "subseq (take (task_pos ?t1 - task_pos ?t) (drop (task_pos ?t) ?evs)) a"
    unfolding task_progress_def by blast
  from 1(2,3) have evs: "task_events ?t1 = ?evs" by (simp add: task_events_def)
  from assms(2) obtain b where 2: "k < length (tasks st2)" "task_repo ?t2 = task_repo ?t1"
    "task_sub ?t2 = task_sub ?t1" "task_pos ?t1 \<le> task_pos ?t2"
    "received (chans st2 (out (task_sub ?t1))) = received (chans st1 (out (task_sub ?t1))) @ b"
    "subseq (take (task_pos ?t2 - task_pos ?t1) (drop (task_pos ?t1) (task_events ?t1))) b"
    unfolding task_progress_def by blast
  from 1(5) 2(5) 1(3) have r: "received (chans st2 ?n) = received (chans st ?n) @ (a @ b)" by simp
  from 1(6) 2(6) evs have "subseq (take (task_pos ?t1 - task_pos ?t) (drop (task_pos ?t) ?evs)
        @ take (task_pos ?t2 - task_pos ?t1) (drop (task_pos ?t1) ?evs)) (a @ b)"
    by (simp add: list_emb_append_mono)
  with take_segments [OF 1(4) 2(4), of ?evs]
  have s: "subseq (take (task_pos ?t2 - task_pos ?t) (drop (task_pos ?t) ?evs)) (a @ b)" by simp
  from 1(4) 2(4) have le: "task_pos ?t \<le> task_pos ?t2" by simp
  from 2(1) 1(2) 2(2) 1(3) 2(3) le r s show ?thesis
    unfolding task_progress_def by (intro conjI exI [of _ "a @ b"]) simp_all
qed

lemma execs_progress:
  "execs st as = Inr st' \<Longrightarrow> k < length (tasks st) \<Longrightarrow> task_progress st st' k"
proof (induction as arbitrary: st)
  case Nil
  then show ?case by (simp add: task_progress_def)
next
  case (Cons a as)
  from execs_Cons_Inr [OF Cons.prems(1)] obtain st1 where
    st1: "exec st a = Inr st1" "execs st1 as = Inr st'" by blast
  from exec_progress [OF st1(1) Cons.prems(2)] have p1: "task_progress st st1 k" .
  then have "k < length (tasks st1)" by (simp add: task_progress_def)
  from Cons.IH [OF st1(2) this] have "task_progress st1 st' k" .
  from task_progress_trans [OF p1 this] show ?case .
qed

lemma replay_step_open:
  assumes "k < length (tasks st)" "task_pos (tasks st ! k) < length (task_events (tasks st ! k))"
    "\<not> is_closed (chans st (out (task_sub (tasks st ! k))))"
    "\<not> deserted (chans st (out (task_sub (tasks st ! k))))"
  shows "replay_step st k =
     Inr (st\<lparr>chans := (chans st)(out (task_sub (tasks st ! k)) :=
                    (chans st (out (task_sub (tasks st ! k))))\<lparr>received :=
                       received (chans st (out (task_sub (tasks st ! k))))
                         @ [task_events (tasks st ! k) ! task_pos (tasks st ! k)]\<rparr>),
              tasks := (tasks st)[k := (tasks st ! k)\<lparr>task_pos := Suc (task_pos (tasks st ! k))\<rparr>]\<rparr>)"
  using assms by (simp add: replay_step_def Let_def send_def)

lemma replay_alone:
  "k < length (tasks st) \<Longrightarrow> \<not> is_closed (chans st (out (task_sub (tasks st ! k)))) \<Longrightarrow>
   task_pos (tasks st ! k) + n \<le> length (task_events (tasks st ! k)) \<Longrightarrow>
   \<not> deserted (chans st (out (task_sub (tasks st ! k)))) \<Longrightarrow>
   \<exists>st'. execs st (replicate n (ReplayNext k)) = Inr st'
      \<and> k < length (tasks st')
      \<and> task_pos (tasks st' ! k) = task_pos (tasks st ! k) + n
      \<and> received (chans st' (out (task_sub (tasks st ! k))))
          = received (chans st (out (task_sub (tasks st ! k))))
            @ take n (drop (task_pos (tasks st ! k)) (task_events (tasks st ! k)))"
proof (induction n arbitrary: st)
  case 0
  then show ?case by simp
next
  case (Suc n)
  let ?t = "tasks st ! k"
  let ?m = "out (task_sub ?t)"
  let ?evs = "task_events ?t"
  let ?st1 = "st\<lparr>chans := (chans st)(?m := (chans st ?m)\<lparr>received :=
                       received (chans st ?m) @ [?evs ! task_pos ?t]\<rparr>),
              tasks := (tasks st)[k := ?t\<lparr>task_pos := Suc (task_pos ?t)\<rparr>]\<rparr>"
  from Suc.prems have p: "task_pos ?t < length ?evs" by simp
  from replay_step_open [OF Suc.prems(1) p Suc.prems(2) Suc.prems(4)]
  have step: "exec st (ReplayNext k) = Inr ?st1" by simp
  from Suc.prems(1) have t1: "tasks ?st1 ! k = ?t\<lparr>task_pos := Suc (task_pos ?t)\<rparr>" by simp
  have k1: "k < length (tasks ?st1)" using Suc.prems(1) by simp
  have o1: "\<not> is_closed (chans ?st1 (out (task_sub (tasks ?st1 ! k))))"
    using Suc.prems(1,2) by simp
  have b1: "task_pos (tasks ?st1 ! k) + n \<le> length (task_events (tasks ?st1 ! k))"
    using Suc.prems(1,3) by simp
  have d1: "\<not> deserted (chans ?st1 (out (task_sub (tasks ?st1 ! k))))"
    using Suc.prems(1,4) by simp
  from Suc.IH [OF k1 o1 b1 d1] obtain st' where st':
    "execs ?st1 (replicate n (ReplayNext k)) = Inr st'" "k < length (tasks st')"
    "task_pos (tasks st' ! k) = task_pos (tasks ?st1 ! k) + n"
    "received (chans st' (out (task_sub (tasks ?st1 ! k))))
          = received (chans ?st1 (out (task_sub (tasks ?st1 ! k))))
            @ take n (drop (task_pos (tasks ?st1 ! k)) (task_events (tasks ?st1 ! k)))"
    by blast
  from step st'(1) have e: "execs st (replicate (Suc n) (ReplayNext k)) = Inr st'" by simp
  from st'(3) Suc.prems(1) have pos: "task_pos (tasks st' ! k) = task_pos ?t + Suc n" by simp
  from st'(4) Suc.prems(1) have "received (chans st' ?m) = received (chans st ?m)
      @ (?evs ! task_pos ?t # take n (drop (Suc (task_pos ?t)) ?evs))"
    by simp
  also from p have "?evs ! task_pos ?t # take n (drop (Suc (task_pos ?t)) ?evs)
      = take (Suc n) (drop (task_pos ?t) ?evs)"
    by (simp add: Cons_nth_drop_Suc [symmetric])
  finally have r: "received (chans st' ?m) = received (chans st ?m)
      @ take (Suc n) (drop (task_pos ?t) ?evs)" .
  from e st'(2) pos r show ?case by blast
qed

lemma connect_starts_task:
  assumes "running st0" "repos st0 c = Some repo" "l \<noteq> []" "exec st0 (Connect c l) = Inr st"
  shows "tasks st = tasks st0 @ [\<lparr>task_repo = repo,
            task_sub = \<lparr>channel = c, lastEventId = l, out = next_chan st0\<rparr>, task_pos = 0\<rparr>]"
    and "chans st = (chans st0)(next_chan st0 := (chans st0 (next_chan st0))\<lparr>deserted := False\<rparr>)"
  using assms by (auto simp: deliver_def Let_def start_replay_def)

text \<open>
  C8. A handler connects to channel \<open>c\<close> with the nonempty last seen identifier \<open>l\<close> while
  \<open>repos\<close> holds \<open>repo\<close> for \<open>c\<close>. The replay goroutine that is started is bound to the
  handler's subscription and ranges over \<open>repo c l\<close>. If its iterations run with no other
  step in between, on an open channel (the \<^verbatim>\<open>Handler\<close> that has just connected is
  receiving), the channel receives exactly \<open>repo c l\<close>, in that order, after what it had
  received. Under any interleaving with other calls (publishes, other replays, connects,
  handlers leaving, disconnects, close) that does not panic, the events the
  goroutine has sent so far, the first \<open>task_pos\<close> events of \<open>repo c l\<close>, occur in that order
  among what the channel has received since; once the goroutine has sent all of them this
  is the whole of \<open>repo c l\<close>.
\<close>

theorem replay_preserves_order:
  assumes "running st0" "repos st0 c = Some repo" "l \<noteq> []"
    and "exec st0 (Connect c l) = Inr st"
  shows "task_sub (tasks st ! length (tasks st0))
           = \<lparr>channel = c, lastEventId = l, out = next_chan st0\<rparr>
     \<and> task_events (tasks st ! length (tasks st0)) = repo c l
     \<and> (\<not> is_closed (chans st0 (next_chan st0)) \<longrightarrow>
          (\<exists>st'. execs st (replicate (length (repo c l)) (ReplayNext (length (tasks st0)))) = Inr st'
             \<and> received (chans st' (next_chan st0))
                 = received (chans st0 (next_chan st0)) @ repo c l))
     \<and> (\<forall>calls st'. execs st calls = Inr st' \<longrightarrow>
          (\<exists>new. received (chans st' (next_chan st0)) = received (chans st0 (next_chan st0)) @ new
             \<and> subseq (take (task_pos (tasks st' ! length (tasks st0))) (repo c l)) new
             \<and> (task_pos (tasks st' ! length (tasks st0)) = length (repo c l)
                  \<longrightarrow> subseq (repo c l) new)))"
proof -
  let ?k = "length (tasks st0)"
  let ?n = "next_chan st0"
  let ?sub = "\<lparr>channel = c, lastEventId = l, out = ?n\<rparr>"
  note ts = connect_starts_task(1) [OF assms] and ch = connect_starts_task(2) [OF assms]
  from ts have k: "?k < length (tasks st)" by simp
  from ts have t: "tasks st ! ?k = \<lparr>task_repo = repo, task_sub = ?sub, task_pos = 0\<rparr>" by simp
  then have sub: "task_sub (tasks st ! ?k) = ?sub" and pos: "task_pos (tasks st ! ?k) = 0"
    and evs: "task_events (tasks st ! ?k) = repo c l"
    by (simp_all add: task_events_def)
  have alone: "\<not> is_closed (chans st0 ?n) \<longrightarrow>
          (\<exists>st'. execs st (replicate (length (repo c l)) (ReplayNext ?k)) = Inr st'
             \<and> received (chans st' ?n) = received (chans st0 ?n) @ repo c l)"
  proof
    assume "\<not> is_closed (chans st0 ?n)"
    then have o: "\<not> is_closed (chans st (out (task_sub (tasks st ! ?k))))" by (simp add: sub ch)
    have b: "task_pos (tasks st ! ?k) + length (repo c l) \<le> length (task_events (tasks st ! ?k))"
      by (simp add: pos evs)
    have d: "\<not> deserted (chans st (out (task_sub (tasks st ! ?k))))" by (simp add: sub ch)
    from replay_alone [OF k o b d] show "\<exists>st'. execs st (replicate (length (repo c l)) (ReplayNext ?k)) = Inr st'
             \<and> received (chans st' ?n) = received (chans st0 ?n) @ repo c l"
      by (auto simp: sub pos evs ch)
  qed
  have inter: "\<forall>calls st'. execs st calls = Inr st' \<longrightarrow>
          (\<exists>new. received (chans st' ?n) = received (chans st0 ?n) @ new
             \<and> subseq (take (task_pos (tasks st' ! ?k)) (repo c l)) new
             \<and> (task_pos (tasks st' ! ?k) = length (repo c l) \<longrightarrow> subseq (repo c l) new))"
  proof (intro allI impI)
    fix calls st' assume "execs st calls = Inr st'"
    from execs_progress [OF this k] obtain new where
      r: "received (chans st' ?n) = received (chans st0 ?n) @ new"
      and s: "subseq (take (task_pos (tasks st' ! ?k)) (repo c l)) new"
      unfolding task_progress_def by (auto simp: sub pos evs ch)
    from s have "task_pos (tasks st' ! ?k) = length (repo c l) \<longrightarrow> subseq (repo c l) new" by auto
    with r s show "\<exists>new. received (chans st' ?n) = received (chans st0 ?n) @ new
             \<and> subseq (take (task_pos (tasks st' ! ?k)) (repo c l)) new
             \<and> (task_pos (tasks st' ! ?k) = length (repo c l) \<longrightarrow> subseq (repo c l) new)"
      by blast
  qed
  from sub evs alone inter show ?thesis by blast
qed

theorem replay_preserves_order_witness:
  "running (new_server\<lparr>repos := [''news'' \<mapsto> news_history]\<rparr>)
   \<and> repos (new_server\<lparr>repos := [''news'' \<mapsto> news_history]\<rparr>) ''news'' = Some news_history
   \<and> ''5'' \<noteq> []
   \<and> (\<exists>st. exec (new_server\<lparr>repos := [''news'' \<mapsto> news_history]\<rparr>) (Connect ''news'' ''5'') = Inr st
        \<and> (\<exists>st'. execs st [ReplayNext 0, Publish [''news''] ''9'', ReplayNext 0, ReplayNext 0] = Inr st'
              \<and> task_pos (tasks st' ! 0) = 3
              \<and> received (chans st' 0) = [''6'', ''9'', ''7'', ''8'']
              \<and> subseq [''6'', ''7'', ''8''] (received (chans st' 0))))"
proof -
  let ?st0 = "new_server\<lparr>repos := [''news'' \<mapsto> news_history]\<rparr> :: string state"
  let ?calls = "[ReplayNext 0, Publish [''news''] ''9'', ReplayNext 0, ReplayNext 0] :: string call list"
  have a: "running ?st0" and b: "repos ?st0 ''news'' = Some news_history" and c: "''5'' \<noteq> []"
    and t: "tasks ?st0 = []" and n: "next_chan ?st0 = 0" and r: "received (chans ?st0 0) = []"
    by (simp_all add: new_server_def)
  obtain st where st: "exec ?st0 (Connect ''news'' ''5'') = Inr st"
    by (simp add: new_server_def deliver_def Let_def)
  from st have st_eq: "st = \<lparr>subs = [(''news'', [news_sub])],
      repos = [''news'' \<mapsto> news_history], running = True, blocked = False,
      chans = (\<lambda>_. \<lparr>is_closed = False, received = [], deserted = False\<rparr>),
      next_chan = Suc 0, handlers = [news_sub],
      tasks = [\<lparr>task_repo = news_history, task_sub = news_sub, task_pos = 0\<rparr>]\<rparr>"
    by (auto simp: new_server_def deliver_def Let_def register_sub_def subs_of_def
        start_replay_def news_sub_def fun_eq_iff)
  obtain st' where st': "execs st ?calls = Inr st'" "task_pos (tasks st' ! 0) = 3"
    "received (chans st' 0) = [''6'', ''9'', ''7'', ''8'']"
    by (simp add: st_eq news_sub_def deliver_def replay_step_def task_events_def send_def
        subs_of_def Let_def)
  from replay_preserves_order [OF a b c st] st'(1)
  obtain new where new: "received (chans st' (next_chan ?st0)) = received (chans ?st0 (next_chan ?st0)) @ new"
    "task_pos (tasks st' ! length (tasks ?st0)) = length (news_history ''news'' ''5'')
       \<longrightarrow> subseq (news_history ''news'' ''5'') new"
    by blast
  from new(1) have "new = received (chans st' 0)" by (simp only: n r append_Nil)
  with new(2) st'(2) have "subseq [''6'', ''7'', ''8''] (received (chans st' 0))"
    by (simp add: t)
  with a b c st st' show ?thesis by blast
qed

end
